theory Spec2Isabelle
  imports Complex_Main "HOL-Library.Sublist"
begin

section \<open>Python strings\<close>

text \<open>
  A Python \<^verbatim>\<open>str\<close> is modelled as a \<^typ>\<open>string\<close>: each \<^typ>\<open>char\<close> is read as
  one code point in the range 0..255. The character classes below are those of
  Python's \<^verbatim>\<open>re\<close> module and of \<^verbatim>\<open>str.isspace\<close> on that range.
\<close>

definition digit_char :: "nat \<Rightarrow> char" where
  "digit_char d = ''0123456789'' ! d"

text \<open>\<^verbatim>\<open>str(n)\<close> and \<^verbatim>\<open>f'{n}'\<close> for an integer: the decimal digits, with a minus sign
  for a negative number.\<close>

function str_nat :: "nat \<Rightarrow> string" where
  "str_nat n = (if n < 10 then [digit_char n] else str_nat (n div 10) @ [digit_char (n mod 10)])"
  by pat_completeness auto
termination
  by (relation "measure id") auto

declare str_nat.simps [simp del]

definition str_int :: "int \<Rightarrow> string" where
  "str_int i = (if i < 0 then CHR ''-'' # str_nat (nat (- i)) else str_nat (nat i))"

text \<open>\<^verbatim>\<open>str.zfill(width)\<close>: the string itself when it already has \<open>width\<close> characters,
  otherwise zeros are inserted on the left, after a leading sign.\<close>

definition zfill :: "nat \<Rightarrow> string \<Rightarrow> string" where
  "zfill width s =
     (if width \<le> length s then s
      else (case s of
              c # cs \<Rightarrow>
                if c = CHR ''+'' \<or> c = CHR ''-''
                then c # replicate (width - length s) CHR ''0'' @ cs
                else replicate (width - length s) CHR ''0'' @ s
            | [] \<Rightarrow> replicate width CHR ''0''))"

section \<open>Duration formatter\<close>

text \<open>
  \<^verbatim>\<open>fmt_seconds(secs)\<close>. \<^verbatim>\<open>math.floor\<close> of a finite float is the floor of the real
  number it denotes. The two true divisions \<^verbatim>\<open>val /= 60\<close> divide a multiple of 60,
  so the quotient is a whole number (exactly representable below \<open>2 ^ 53\<close>), and the
  model divides integers.
\<close>

definition fmt_seconds :: "real \<Rightarrow> string" where
  "fmt_seconds secs =
     (let val = \<lfloor>secs\<rfloor>;
          s = val mod 60;
          val = (val - s) div 60;
          m = val mod 60;
          val = (val - m) div 60;
          h = val
      in if h = 0 \<and> m = 0 \<and> s = 0 then ''0s''
         else if h = 0 \<and> m = 0 then zfill 2 (str_int s @ ''s'')
         else if h = 0 then zfill 2 (str_int m) @ '':'' @ zfill 2 (str_int s)
         else zfill 2 (str_int h) @ '':'' @ zfill 2 (str_int m) @ '':'' @ zfill 2 (str_int s))"


section \<open>Text helpers of the archive functions\<close>

text \<open>\<^verbatim>\<open>str.isspace\<close>, also the class \<^verbatim>\<open>\s\<close> of \<^verbatim>\<open>re\<close>: tab, line feed, vertical tab,
  form feed, carriage return, the four separators 28..31, space, and in the upper
  half next-line (133) and no-break space (160).\<close>

definition is_space :: "char \<Rightarrow> bool" where
  "is_space c =
     (let n = (of_char c :: nat)
      in (9 \<le> n \<and> n \<le> 13) \<or> (28 \<le> n \<and> n \<le> 32) \<or> n = 133 \<or> n = 160)"

text \<open>\<^verbatim>\<open>str.strip()\<close> removes whitespace at both ends.\<close>

definition strip :: "string \<Rightarrow> string" where
  "strip s = rev (dropWhile is_space (rev (dropWhile is_space s)))"

text \<open>\<^verbatim>\<open>str.split(sep)\<close> for a one-character separator: never the empty list.\<close>

fun split_on :: "char \<Rightarrow> string \<Rightarrow> string list" where
  "split_on sep [] = [[]]"
| "split_on sep (c # cs) =
     (if c = sep then [] # split_on sep cs
      else (case split_on sep cs of
              w # ws \<Rightarrow> (c # w) # ws
            | [] \<Rightarrow> [[c]]))"

text \<open>A file opened in text mode is read with universal newlines: \<^verbatim>\<open>\r\n\<close> and a lone
  \<^verbatim>\<open>\r\<close> arrive as \<^verbatim>\<open>\n\<close>.\<close>

fun universal_newlines :: "string \<Rightarrow> string" where
  "universal_newlines [] = []"
| "universal_newlines (c # cs) =
     (if c = CHR 0x0D
      then (case cs of
              d # ds \<Rightarrow> if d = CHR ''\<newline>'' then CHR ''\<newline>'' # universal_newlines ds
                         else CHR ''\<newline>'' # universal_newlines cs
            | [] \<Rightarrow> [CHR ''\<newline>''])
      else c # universal_newlines cs)"

text \<open>\<^verbatim>\<open>f.readlines()\<close>: the lines of the text, each with its line feed, the last one
  without when the text does not end in one.\<close>

fun readlines :: "string \<Rightarrow> string list" where
  "readlines [] = []"
| "readlines (c # cs) =
     (if c = CHR ''\<newline>'' then [c] # readlines cs
      else (case readlines cs of
              [] \<Rightarrow> [[c]]
            | l # ls \<Rightarrow> (c # l) # ls))"

text \<open>The comprehension \<^verbatim>\<open>[line.strip().split('\t')[0] for line in f.readlines()]\<close>
  over the text of an open file.\<close>

definition ids_of_text :: "string \<Rightarrow> string list" where
  "ids_of_text text =
     map (\<lambda>line. split_on CHR 0x09 (strip line) ! 0) (readlines (universal_newlines text))"

section \<open>Clock\<close>

record datetime =
  year :: nat
  month :: nat
  day :: nat
  hour :: nat
  minute :: nat
  second :: nat

text \<open>\<^verbatim>\<open>strftime("%Y-%m-%d %H:%M:%S")\<close>, every field in decimal digits and padded
  with zeros to its width.\<close>

definition strftime :: "datetime \<Rightarrow> string" where
  "strftime t =
     zfill 4 (str_nat (year t)) @ ''-'' @ zfill 2 (str_nat (month t)) @ ''-'' @
     zfill 2 (str_nat (day t)) @ '' '' @ zfill 2 (str_nat (hour t)) @ '':'' @
     zfill 2 (str_nat (minute t)) @ '':'' @ zfill 2 (str_nat (second t))"

section \<open>Configuration and file system\<close>

text \<open>
  A path is the list of its components, \<open>[]\<close> being the directory every path starts
  from. The file system maps a path to what is there. A file holds its text as Python
  reads and writes it in text mode; decoding and permission failures are not
  modelled. An \<open>OSError\<close> of the source is a value of \<open>error\<close>.
\<close>

type_synonym path = "string list"

datatype node = File string | Dir

type_synonym filesystem = "path \<Rightarrow> node option"

datatype error = FileNotFoundError | FileExistsError | NotADirectoryError | IsADirectoryError

text \<open>The part of \<^verbatim>\<open>Zotify.CONFIG\<close> these functions read.\<close>

record config =
  song_archive :: path
  disable_directory_archives :: bool

definition path_exists :: "filesystem \<Rightarrow> path \<Rightarrow> bool" where
  "path_exists fs p = (fs p \<noteq> None)"

definition is_file :: "filesystem \<Rightarrow> path \<Rightarrow> bool" where
  "is_file fs p = (case fs p of Some (File _) \<Rightarrow> True | _ \<Rightarrow> False)"

definition joinpath :: "path \<Rightarrow> string \<Rightarrow> path" where
  "joinpath p name = p @ [name]"

text \<open>
  Opening a file walks through the directories on the way to it, from the starting
  directory down to the one that holds the file: the first of them that is missing
  stops the walk with \<open>FileNotFoundError\<close>, the first that is a regular file with
  \<open>NotADirectoryError\<close>.
\<close>

fun walk :: "filesystem \<Rightarrow> path list \<Rightarrow> error option" where
  "walk fs [] = None"
| "walk fs (q # qs) =
     (case fs q of
        None \<Rightarrow> Some FileNotFoundError
      | Some (File _) \<Rightarrow> Some NotADirectoryError
      | Some Dir \<Rightarrow> walk fs qs)"

definition directories_to :: "path \<Rightarrow> path list" where
  "directories_to p = prefixes (butlast p)"

text \<open>\<^verbatim>\<open>open(p, 'w')\<close> followed by writing \<open>text\<close> and closing: the file is created or
  truncated.\<close>

definition open_write :: "filesystem \<Rightarrow> path \<Rightarrow> string \<Rightarrow> error + filesystem" where
  "open_write fs p text =
     (case walk fs (directories_to p) of
        Some e \<Rightarrow> Inl e
      | None \<Rightarrow>
          (case fs p of
             Some Dir \<Rightarrow> Inl IsADirectoryError
           | _ \<Rightarrow> Inr (fs(p \<mapsto> File text))))"

text \<open>\<^verbatim>\<open>open(p, 'a')\<close> followed by writing \<open>text\<close> and closing: the text goes after
  what the file holds; a missing file is created.\<close>

definition open_append :: "filesystem \<Rightarrow> path \<Rightarrow> string \<Rightarrow> error + filesystem" where
  "open_append fs p text =
     (case walk fs (directories_to p) of
        Some e \<Rightarrow> Inl e
      | None \<Rightarrow>
          (case fs p of
             Some Dir \<Rightarrow> Inl IsADirectoryError
           | Some (File old) \<Rightarrow> Inr (fs(p \<mapsto> File (old @ text)))
           | None \<Rightarrow> Inr (fs(p \<mapsto> File text))))"

text \<open>\<^verbatim>\<open>open(p, 'r')\<close> and reading the whole text.\<close>

definition open_read :: "filesystem \<Rightarrow> path \<Rightarrow> error + string" where
  "open_read fs p =
     (case fs p of
        None \<Rightarrow> Inl FileNotFoundError
      | Some Dir \<Rightarrow> Inl IsADirectoryError
      | Some (File text) \<Rightarrow> Inr text)"

text \<open>\<^verbatim>\<open>os.mkdir(p)\<close>.\<close>

definition os_mkdir :: "filesystem \<Rightarrow> path \<Rightarrow> error + filesystem" where
  "os_mkdir fs p =
     (if fs p \<noteq> None then Inl FileExistsError
      else (case fs (butlast p) of
              None \<Rightarrow> Inl FileNotFoundError
            | Some (File _) \<Rightarrow> Inl NotADirectoryError
            | Some Dir \<Rightarrow> Inr (fs(p \<mapsto> Dir))))"

text \<open>\<^verbatim>\<open>Path(p).mkdir(parents=True, exist_ok=True)\<close>, as \<^verbatim>\<open>pathlib\<close> does it: try
  \<^verbatim>\<open>os.mkdir\<close>; when the parent is missing, make the parent this way and try once
  more; any other failure is forgiven when the path is a directory already. The
  result is the exception raised, if any, and the file system left behind.\<close>

function mkdir_parents :: "filesystem \<Rightarrow> path \<Rightarrow> error option \<times> filesystem" where
  "mkdir_parents fs p =
     (case os_mkdir fs p of
        Inr fs' \<Rightarrow> (None, fs')
      | Inl FileNotFoundError \<Rightarrow>
          (if p = [] then (Some FileNotFoundError, fs)
           else (case mkdir_parents fs (butlast p) of
                   (Some e, fs') \<Rightarrow> (Some e, fs')
                 | (None, fs') \<Rightarrow>
                     (case os_mkdir fs' p of
                        Inr fs'' \<Rightarrow> (None, fs'')
                      | Inl FileNotFoundError \<Rightarrow> (Some FileNotFoundError, fs')
                      | Inl e \<Rightarrow> (if fs' p = Some Dir then (None, fs') else (Some e, fs')))))
      | Inl e \<Rightarrow> (if fs p = Some Dir then (None, fs) else (Some e, fs)))"
  by pat_completeness auto
termination
  by (relation "measure (\<lambda>(fs, p). length p)") auto

declare mkdir_parents.simps [simp del]

section \<open>Download archive\<close>

text \<open>The line every archive function writes: the f-string
  \<^verbatim>\<open>f'{song_id}\t{now}\t{author_name}\t{song_name}\t{filename}\n'\<close>.\<close>

definition archive_line :: "string \<Rightarrow> datetime \<Rightarrow> string \<Rightarrow> string \<Rightarrow> string \<Rightarrow> string" where
  "archive_line song_id now author_name song_name filename =
     song_id @ [CHR 0x09] @ strftime now @ [CHR 0x09] @ author_name @ [CHR 0x09] @
     song_name @ [CHR 0x09] @ filename @ [CHR ''\<newline>'']"

definition create_download_directory ::
  "config \<Rightarrow> path \<Rightarrow> filesystem \<Rightarrow> error option \<times> filesystem" where
  "create_download_directory cfg download_path fs =
     (case mkdir_parents fs download_path of
        (Some e, fs') \<Rightarrow> (Some e, fs')
      | (None, fs') \<Rightarrow>
          (let hidden_file_path = joinpath download_path ''.song_ids''
           in if disable_directory_archives cfg then (None, fs')
              else if \<not> is_file fs' hidden_file_path
              then (case open_write fs' hidden_file_path [] of
                      Inl e \<Rightarrow> (Some e, fs')
                    | Inr fs'' \<Rightarrow> (None, fs''))
              else (None, fs')))"

definition get_previously_downloaded :: "config \<Rightarrow> filesystem \<Rightarrow> error + string list" where
  "get_previously_downloaded cfg fs =
     (let archive_path = song_archive cfg
      in if path_exists fs archive_path
         then (case open_read fs archive_path of
                 Inl e \<Rightarrow> Inl e
               | Inr text \<Rightarrow> Inr (ids_of_text text))
         else Inr [])"

text \<open>The current time is read from the clock: the argument \<open>now\<close>.\<close>

definition add_to_archive ::
  "config \<Rightarrow> datetime \<Rightarrow> string \<Rightarrow> string \<Rightarrow> string \<Rightarrow> string \<Rightarrow> filesystem
     \<Rightarrow> error option \<times> filesystem" where
  "add_to_archive cfg now song_id filename author_name song_name fs =
     (let archive_path = song_archive cfg;
          line = archive_line song_id now author_name song_name filename
      in if path_exists fs archive_path
         then (case open_append fs archive_path line of
                 Inl e \<Rightarrow> (Some e, fs)
               | Inr fs' \<Rightarrow> (None, fs'))
         else (case open_write fs archive_path line of
                 Inl e \<Rightarrow> (Some e, fs)
               | Inr fs' \<Rightarrow> (None, fs')))"

definition get_directory_song_ids :: "config \<Rightarrow> path \<Rightarrow> filesystem \<Rightarrow> error + string list" where
  "get_directory_song_ids cfg download_path fs =
     (let hidden_file_path = joinpath download_path ''.song_ids''
      in if is_file fs hidden_file_path \<and> \<not> disable_directory_archives cfg
         then (case open_read fs hidden_file_path of
                 Inl e \<Rightarrow> Inl e
               | Inr text \<Rightarrow> Inr ([] @ ids_of_text text))
         else Inr [])"

definition add_to_directory_song_ids ::
  "config \<Rightarrow> datetime \<Rightarrow> path \<Rightarrow> string \<Rightarrow> string \<Rightarrow> string \<Rightarrow> string \<Rightarrow> filesystem
     \<Rightarrow> error option \<times> filesystem" where
  "add_to_directory_song_ids cfg now download_path song_id filename author_name song_name fs =
     (let hidden_file_path = joinpath download_path ''.song_ids''
      in if disable_directory_archives cfg then (None, fs)
         else (case open_append fs hidden_file_path
                      (archive_line song_id now author_name song_name filename) of
                 Inl e \<Rightarrow> (Some e, fs)
               | Inr fs' \<Rightarrow> (None, fs')))"


section \<open>Predicates used in the statements about the archive\<close>

text \<open>The decimal digits, the characters \<open>str_nat\<close> produces.\<close>

definition is_digit :: "char \<Rightarrow> bool" where
  "is_digit c = (c \<in> set ''0123456789'')"

text \<open>The characters of a formatted time stamp.\<close>

definition is_stamp_char :: "char \<Rightarrow> bool" where
  "is_stamp_char c = (is_digit c \<or> c = CHR ''-'' \<or> c = CHR '':'' \<or> c = CHR '' '')"

text \<open>A field without a line break: no carriage return and no line feed.\<close>

definition no_linebreak :: "string \<Rightarrow> bool" where
  "no_linebreak s = (CHR 0x0D \<notin> set s \<and> CHR ''\<newline>'' \<notin> set s)"

text \<open>An identifier that a line read back gives unchanged: not empty, not starting
  with whitespace, without a tab and without a line break. Every 22-character
  alphanumeric identifier is one.\<close>

definition plain_id :: "string \<Rightarrow> bool" where
  "plain_id s = (s \<noteq> [] \<and> \<not> is_space (hd s) \<and> CHR 0x09 \<notin> set s \<and> no_linebreak s)"

text \<open>A text that is empty or ends in a line feed, as every archive written only by
  these functions is.\<close>

definition line_terminated :: "string \<Rightarrow> bool" where
  "line_terminated s = (s = [] \<or> last s = CHR ''\<newline>'')"

text \<open>The text of the file at a path, empty when there is no file.\<close>

definition archive_text :: "filesystem \<Rightarrow> path \<Rightarrow> string" where
  "archive_text fs p = (case fs p of Some (File text) \<Rightarrow> text | _ \<Rightarrow> [])"


section \<open>Regular expressions of the \<^verbatim>\<open>re\<close> module\<close>

text \<open>
  The patterns of the source are written in the following syntax tree; only the
  constructs they use are present. \<open>Many1\<close> is \<^verbatim>\<open>+\<close> and \<open>Many1Lazy\<close> is \<^verbatim>\<open>+?\<close>,
  both over a character class, \<open>Opt\<close> is the greedy \<^verbatim>\<open>?\<close>, \<open>NotAhead\<close> is \<^verbatim>\<open>(?!...)\<close>,
  \<open>Bol\<close> and \<open>Eol\<close> are \<^verbatim>\<open>^\<close> and \<^verbatim>\<open>$\<close> without the MULTILINE flag, \<open>Group\<close> is a
  capturing group under its name or number.
\<close>

datatype rexp =
    Lit string
  | Cls "char \<Rightarrow> bool"
  | Bol
  | Eol
  | Seq rexp rexp
  | Alt rexp rexp
  | Opt rexp
  | Many1 "char \<Rightarrow> bool"
  | Many1Lazy "char \<Rightarrow> bool"
  | NotAhead rexp
  | Group string rexp

text \<open>\<^verbatim>\<open>r{n}\<close> is \<open>n\<close> copies of \<open>r\<close> in sequence.\<close>

fun rep :: "nat \<Rightarrow> rexp \<Rightarrow> rexp" where
  "rep 0 r = Lit []"
| "rep (Suc n) r = Seq r (rep n r)"

text \<open>The character classes of the patterns.\<close>

definition is_alnum :: "char \<Rightarrow> bool" where
  \<comment> \<open>\<^verbatim>\<open>[0-9a-zA-Z]\<close>\<close>
  "is_alnum c =
     (let n = (of_char c :: nat)
      in (48 \<le> n \<and> n \<le> 57) \<or> (97 \<le> n \<and> n \<le> 122) \<or> (65 \<le> n \<and> n \<le> 90))"

definition is_word :: "char \<Rightarrow> bool" where
  \<comment> \<open>\<^verbatim>\<open>\w\<close>: letters, digits and numbers of the code points 0..255, and the underscore\<close>
  "is_word c =
     (let n = (of_char c :: nat)
      in (48 \<le> n \<and> n \<le> 57) \<or> (97 \<le> n \<and> n \<le> 122) \<or> (65 \<le> n \<and> n \<le> 90) \<or> n = 95 \<or>
         n = 170 \<or> n = 178 \<or> n = 179 \<or> n = 181 \<or> n = 185 \<or> n = 186 \<or>
         (188 \<le> n \<and> n \<le> 190) \<or> (192 \<le> n \<and> n \<le> 214) \<or> (216 \<le> n \<and> n \<le> 246) \<or>
         248 \<le> n)"

definition not_newline :: "char \<Rightarrow> bool" where
  \<comment> \<open>\<^verbatim>\<open>.\<close> without the DOTALL flag\<close>
  "not_newline c = (c \<noteq> CHR ''\<newline>'')"

definition is_forbidden :: "char \<Rightarrow> bool" where
  \<comment> \<open>\<^verbatim>\<open>[/\\:|<>"?*\0-\x1f]\<close>\<close>
  "is_forbidden c =
     (let n = (of_char c :: nat)
      in n = 47 \<or> n = 92 \<or> n = 58 \<or> n = 124 \<or> n = 60 \<or> n = 62 \<or> n = 34 \<or> n = 63 \<or>
         n = 42 \<or> n \<le> 31)"

definition is_digit19 :: "char \<Rightarrow> bool" where
  \<comment> \<open>\<^verbatim>\<open>[1-9]\<close>\<close>
  "is_digit19 c = (let n = (of_char c :: nat) in 49 \<le> n \<and> n \<le> 57)"

definition not_dot :: "char \<Rightarrow> bool" where
  \<comment> \<open>\<^verbatim>\<open>[^.]\<close>\<close>
  "not_dot c = (c \<noteq> CHR ''.'')"

definition is_space_or_dot :: "char \<Rightarrow> bool" where
  \<comment> \<open>\<^verbatim>\<open>[\s.]\<close>\<close>
  "is_space_or_dot c = (is_space c \<or> c = CHR ''.'')"

text \<open>
  Under IGNORECASE two characters are equal when their lower-case forms are. On the
  code points 0..255 lower-casing moves \<open>A\<close>..\<open>Z\<close> and the accented capitals 192..222
  (not the multiplication sign 215) up by 32. The character classes of the patterns
  contain no cased character, so the flag does not change what they match.
\<close>

definition lower_code :: "char \<Rightarrow> nat" where
  "lower_code c =
     (let n = (of_char c :: nat)
      in if (65 \<le> n \<and> n \<le> 90) \<or> (192 \<le> n \<and> n \<le> 222 \<and> n \<noteq> 215) then n + 32 else n)"

definition char_eq :: "bool \<Rightarrow> char \<Rightarrow> char \<Rightarrow> bool" where
  "char_eq ignorecase a c = (if ignorecase then lower_code a = lower_code c else a = c)"

text \<open>Matching a literal string at the front of the input; the result is the rest of
  the input.\<close>

fun lit_match :: "bool \<Rightarrow> string \<Rightarrow> string \<Rightarrow> string option" where
  "lit_match ic [] s = Some s"
| "lit_match ic (a # l) [] = None"
| "lit_match ic (a # l) (c # cs) = (if char_eq ic a c then lit_match ic l cs else None)"

text \<open>
  The backtracking matcher. A state is the position in the whole input, the input from
  there on, and the groups captured so far. \<open>rmatch\<close> returns every way of matching
  the expression at the front of a state, in the order in which Python tries them;
  the first is the match Python reports.
\<close>

type_synonym mstate = "nat \<times> string \<times> (string \<times> string) list"

fun rmatch :: "bool \<Rightarrow> rexp \<Rightarrow> mstate \<Rightarrow> mstate list" where
  "rmatch ic (Lit l) (i, s, g) =
     (case lit_match ic l s of
        Some s' \<Rightarrow> [(i + length l, s', g)]
      | None \<Rightarrow> [])"
| "rmatch ic (Cls P) (i, s, g) =
     (case s of
        [] \<Rightarrow> []
      | c # cs \<Rightarrow> if P c then [(Suc i, cs, g)] else [])"
| "rmatch ic Bol (i, s, g) = (if i = 0 then [(i, s, g)] else [])"
| "rmatch ic Eol (i, s, g) = (if s = [] \<or> s = [CHR ''\<newline>''] then [(i, s, g)] else [])"
| "rmatch ic (Seq a b) st = concat (map (rmatch ic b) (rmatch ic a st))"
| "rmatch ic (Alt a b) st = rmatch ic a st @ rmatch ic b st"
| "rmatch ic (Opt a) st = rmatch ic a st @ [st]"
| "rmatch ic (Many1 P) (i, s, g) =
     map (\<lambda>k. (i + k, drop k s, g)) (rev [1 ..< Suc (length (takeWhile P s))])"
| "rmatch ic (Many1Lazy P) (i, s, g) =
     map (\<lambda>k. (i + k, drop k s, g)) [1 ..< Suc (length (takeWhile P s))]"
| "rmatch ic (NotAhead a) st = (if rmatch ic a st = [] then [st] else [])"
| "rmatch ic (Group name a) (i, s, g) =
     map (\<lambda>(j, s', g'). (j, s', (name, take (j - i) s) # g')) (rmatch ic a (i, s, g))"

text \<open>\<^verbatim>\<open>re.search\<close>: the first match at the leftmost position that has one.\<close>

fun search_from :: "bool \<Rightarrow> rexp \<Rightarrow> nat \<Rightarrow> string \<Rightarrow> mstate option" where
  "search_from ic r i [] =
     (case rmatch ic r (i, [], []) of
        m # _ \<Rightarrow> Some m
      | [] \<Rightarrow> None)"
| "search_from ic r i (c # cs) =
     (case rmatch ic r (i, c # cs, []) of
        m # _ \<Rightarrow> Some m
      | [] \<Rightarrow> search_from ic r (Suc i) cs)"

definition re_search :: "bool \<Rightarrow> rexp \<Rightarrow> string \<Rightarrow> mstate option" where
  "re_search ic r s = search_from ic r 0 s"

text \<open>\<^verbatim>\<open>m.group(name)\<close> of a match: what the group captured, \<open>None\<close> when it took no
  part in the match.\<close>

definition group :: "string \<Rightarrow> mstate \<Rightarrow> string option" where
  "group name m = map_of (snd (snd m)) name"

text \<open>
  \<^verbatim>\<open>re.sub(pattern, repl, s)\<close>: going through the input from the left, every match is
  replaced and the search goes on behind it; a character with no match at it is kept.
  A match of no characters is treated as no match: the one pattern this is used with
  matches at least one character.
\<close>

function sub_from :: "bool \<Rightarrow> rexp \<Rightarrow> string \<Rightarrow> nat \<Rightarrow> string \<Rightarrow> string" where
  "sub_from ic r repl i s =
     (case rmatch ic r (i, s, []) of
        (j, s', g) # _ \<Rightarrow>
          if length s' < length s then repl @ sub_from ic r repl j s'
          else (case s of [] \<Rightarrow> [] | c # cs \<Rightarrow> c # sub_from ic r repl (Suc i) cs)
      | [] \<Rightarrow> (case s of [] \<Rightarrow> [] | c # cs \<Rightarrow> c # sub_from ic r repl (Suc i) cs))"
  by pat_completeness auto
termination
  by (relation "measure (\<lambda>(ic, r, repl, i, s). length s)") auto

declare sub_from.simps [simp del]

definition re_sub :: "bool \<Rightarrow> rexp \<Rightarrow> string \<Rightarrow> string \<Rightarrow> string" where
  "re_sub ic r repl s = sub_from ic r repl 0 s"

section \<open>Identifier extractor\<close>

text \<open>The pattern \<^verbatim>\<open>^spotify:<type>:(?P<Name>[0-9a-zA-Z]{22})$\<close>.\<close>

definition uri_re :: "string \<Rightarrow> string \<Rightarrow> rexp" where
  "uri_re type_name group_name =
     Seq Bol (Seq (Lit (''spotify:'' @ type_name @ '':''))
       (Seq (Group group_name (rep 22 (Cls is_alnum))) Eol))"

text \<open>The pattern
  \<^verbatim>\<open>^(https?://)?open\.spotify\.com(?:/intl-\w+)?/<type>/(?P<Name>[0-9a-zA-Z]{22})(\?si=.+?)?$\<close>.\<close>

definition url_re :: "string \<Rightarrow> string \<Rightarrow> rexp" where
  "url_re type_name group_name =
     Seq Bol
       (Seq (Opt (Group ''1'' (Seq (Lit ''http'') (Seq (Opt (Lit ''s'')) (Lit ''://'')))))
         (Seq (Lit ''open.spotify.com'')
           (Seq (Opt (Seq (Lit ''/intl-'') (Many1 is_word)))
             (Seq (Lit (''/'' @ type_name @ ''/''))
               (Seq (Group group_name (rep 22 (Cls is_alnum)))
                 (Seq (Opt (Group ''3'' (Seq (Lit ''?si='') (Many1Lazy not_newline)))) Eol))))))"

text \<open>One slot of the result: the group of the URI match when there is one, else of
  the URL match, else \<open>None\<close>.\<close>

definition id_str :: "string \<Rightarrow> mstate option \<Rightarrow> mstate option \<Rightarrow> string option" where
  "id_str group_name uri_search url_search =
     (if uri_search \<noteq> None \<or> url_search \<noteq> None
      then (case (if uri_search \<noteq> None then uri_search else url_search) of
              Some m \<Rightarrow> group group_name m
            | None \<Rightarrow> None)
      else None)"

definition regex_input_for_urls ::
  "string \<Rightarrow> string option \<times> string option \<times> string option \<times> string option \<times>
     string option \<times> string option" where
  "regex_input_for_urls search_input =
     (let track_uri_search = re_search False (uri_re ''track'' ''TrackID'') search_input;
          track_url_search = re_search False (url_re ''track'' ''TrackID'') search_input;
          album_uri_search = re_search False (uri_re ''album'' ''AlbumID'') search_input;
          album_url_search = re_search False (url_re ''album'' ''AlbumID'') search_input;
          playlist_uri_search = re_search False (uri_re ''playlist'' ''PlaylistID'') search_input;
          playlist_url_search = re_search False (url_re ''playlist'' ''PlaylistID'') search_input;
          episode_uri_search = re_search False (uri_re ''episode'' ''EpisodeID'') search_input;
          episode_url_search = re_search False (url_re ''episode'' ''EpisodeID'') search_input;
          show_uri_search = re_search False (uri_re ''show'' ''ShowID'') search_input;
          show_url_search = re_search False (url_re ''show'' ''ShowID'') search_input;
          artist_uri_search = re_search False (uri_re ''artist'' ''ArtistID'') search_input;
          artist_url_search = re_search False (url_re ''artist'' ''ArtistID'') search_input;
          track_id_str = id_str ''TrackID'' track_uri_search track_url_search;
          album_id_str = id_str ''AlbumID'' album_uri_search album_url_search;
          playlist_id_str = id_str ''PlaylistID'' playlist_uri_search playlist_url_search;
          episode_id_str = id_str ''EpisodeID'' episode_uri_search episode_url_search;
          show_id_str = id_str ''ShowID'' show_uri_search show_url_search;
          artist_id_str = id_str ''ArtistID'' artist_uri_search artist_url_search
      in (track_id_str, album_id_str, playlist_id_str, episode_id_str, show_id_str,
          artist_id_str))"

section \<open>Filename sanitizer\<close>

text \<open>The pattern
  \<^verbatim>\<open>[/\\:|<>"?*\0-\x1f]|^(AUX|COM[1-9]|CON|LPT[1-9]|NUL|PRN)(?![^.])|^\s|[\s.]$\<close>.\<close>

definition reserved_re :: rexp where
  "reserved_re =
     Alt (Lit ''AUX'') (Alt (Seq (Lit ''COM'') (Cls is_digit19)) (Alt (Lit ''CON'')
       (Alt (Seq (Lit ''LPT'') (Cls is_digit19)) (Alt (Lit ''NUL'') (Lit ''PRN'')))))"

definition fix_re :: rexp where
  "fix_re =
     Alt (Cls is_forbidden)
       (Alt (Seq Bol (Seq (Group ''1'' reserved_re) (NotAhead (Cls not_dot))))
         (Alt (Seq Bol (Cls is_space))
           (Seq (Cls is_space_or_dot) Eol)))"

text \<open>\<^verbatim>\<open>fix_filename(name)\<close> for a name that is a string, the pattern compiled with
  IGNORECASE.\<close>

definition fix_filename :: "string \<Rightarrow> string" where
  "fix_filename name = re_sub True fix_re ''_'' name"


section \<open>A direct reading of the identifier patterns\<close>

text \<open>
  The functions of this section say without a regular expression what the patterns
  of the identifier extractor accept; they are proved below to agree with the matcher
  on every input, and the statements about the extractor are derived from them.
\<close>

definition is_id :: "string \<Rightarrow> bool" where
  "is_id x = (length x = 22 \<and> list_all is_alnum x)"

definition at_eol :: "string \<Rightarrow> bool" where
  "at_eol s = (s = [] \<or> s = [CHR ''\<newline>''])"

definition uri_id :: "string \<Rightarrow> string \<Rightarrow> string option" where
  "uri_id type_name s =
     (let p = ''spotify:'' @ type_name @ '':''; x = drop (length p) s
      in if prefix p s \<and> is_id (take 22 x) \<and> at_eol (drop 22 x) then Some (take 22 x)
         else None)"

definition valid_query :: "string \<Rightarrow> bool" where
  "valid_query q =
     (at_eol q \<or>
      (prefix ''?si='' q \<and> takeWhile not_newline (drop 4 q) \<noteq> [] \<and>
       at_eol (dropWhile not_newline (drop 4 q))))"

definition url_tail :: "string \<Rightarrow> string \<Rightarrow> string option" where
  "url_tail type_name r =
     (let p = ''/'' @ type_name @ ''/''; x = drop (length p) r
      in if prefix p r \<and> is_id (take 22 x) \<and> valid_query (drop 22 x) then Some (take 22 x)
         else None)"

definition strip_scheme :: "string \<Rightarrow> string" where
  "strip_scheme s =
     (if prefix ''https://'' s then drop 8 s
      else if prefix ''http://'' s then drop 7 s
      else s)"

definition url_host :: "string \<Rightarrow> string option" where
  "url_host s =
     (let r = strip_scheme s
      in if prefix ''open.spotify.com'' r then Some (drop 16 r) else None)"

definition strip_intl :: "string \<Rightarrow> string" where
  "strip_intl r =
     (if prefix ''/intl-'' r \<and> takeWhile is_word (drop 6 r) \<noteq> []
      then dropWhile is_word (drop 6 r)
      else r)"

definition url_id :: "string \<Rightarrow> string \<Rightarrow> string option" where
  "url_id type_name s =
     (case url_host s of
        None \<Rightarrow> None
      | Some r \<Rightarrow> url_tail type_name (strip_intl r))"

definition slot :: "string \<Rightarrow> string \<Rightarrow> string option" where
  "slot type_name s =
     (case uri_id type_name s of
        Some x \<Rightarrow> Some x
      | None \<Rightarrow> url_id type_name s)"

text \<open>The type word an input carries, if it has the outer form of a URI or a URL.\<close>

definition shape :: "string \<Rightarrow> string option" where
  "shape s =
     (if prefix ''spotify:'' s then Some (takeWhile (\<lambda>c. c \<noteq> CHR '':'') (drop 8 s))
      else (case url_host s of
              None \<Rightarrow> None
            | Some r \<Rightarrow> Some (takeWhile (\<lambda>c. c \<noteq> CHR ''/'') (drop 1 (strip_intl r)))))"

section \<open>Resource types and the result tuple\<close>

datatype rtype = Track | Album | Playlist | Episode | Show | Artist

fun type_name :: "rtype \<Rightarrow> string" where
  "type_name Track = ''track''"
| "type_name Album = ''album''"
| "type_name Playlist = ''playlist''"
| "type_name Episode = ''episode''"
| "type_name Show = ''show''"
| "type_name Artist = ''artist''"

type_synonym ids = "string option \<times> string option \<times> string option \<times> string option \<times>
  string option \<times> string option"

text \<open>The result with the one slot of a type filled, and the result with no slot
  filled.\<close>

fun only :: "rtype \<Rightarrow> string \<Rightarrow> ids" where
  "only Track x = (Some x, None, None, None, None, None)"
| "only Album x = (None, Some x, None, None, None, None)"
| "only Playlist x = (None, None, Some x, None, None, None)"
| "only Episode x = (None, None, None, Some x, None, None)"
| "only Show x = (None, None, None, None, Some x, None)"
| "only Artist x = (None, None, None, None, None, Some x)"

definition no_ids :: ids where
  "no_ids = (None, None, None, None, None, None)"

text \<open>The number of slots of a result that are not \<open>None\<close>.\<close>

fun populated :: "ids \<Rightarrow> nat" where
  "populated (a, b, c, d, e, f) = length (filter (\<lambda>x. x \<noteq> None) [a, b, c, d, e, f])"

text \<open>The input forms: a URI, and a URL with its optional scheme and its optional
  \<^verbatim>\<open>intl-<locale>\<close> segment.\<close>

definition uri_form :: "rtype \<Rightarrow> string" where
  "uri_form t = ''spotify:'' @ type_name t @ '':''"

definition is_scheme :: "string \<Rightarrow> bool" where
  "is_scheme sch = (sch = [] \<or> sch = ''http://'' \<or> sch = ''https://'')"

definition is_intl :: "string \<Rightarrow> bool" where
  "is_intl seg =
     (seg = [] \<or> (prefix ''/intl-'' seg \<and> drop 6 seg \<noteq> [] \<and> list_all is_word (drop 6 seg)))"

definition url_form :: "string \<Rightarrow> string \<Rightarrow> rtype \<Rightarrow> string" where
  "url_form sch seg t = sch @ ''open.spotify.com'' @ seg @ ''/'' @ type_name t @ ''/''"

text \<open>An identifier part made of a valid identifier and one line feed.\<close>

definition id_then_newline :: "string \<Rightarrow> bool" where
  "id_then_newline x = (is_id (take 22 x) \<and> drop 22 x = [CHR ''\<newline>''])"


section \<open>The parts of the URL pattern\<close>

text \<open>Names for the parts of \<open>url_re\<close>, used in the proofs: the optional scheme, the
  optional \<^verbatim>\<open>intl-\<close> segment, the optional query up to the end, the part from the type
  word on, and the part from the host on.\<close>

definition scheme_re :: rexp where
  "scheme_re = Opt (Group ''1'' (Seq (Lit ''http'') (Seq (Opt (Lit ''s'')) (Lit ''://''))))"

definition intl_re :: rexp where
  "intl_re = Opt (Seq (Lit ''/intl-'') (Many1 is_word))"

definition query_re :: rexp where
  "query_re = Seq (Opt (Group ''3'' (Seq (Lit ''?si='') (Many1Lazy not_newline)))) Eol"

definition tail_re :: "string \<Rightarrow> string \<Rightarrow> rexp" where
  "tail_re t n = Seq (Lit (''/'' @ t @ ''/'')) (Seq (Group n (rep 22 (Cls is_alnum))) query_re)"

definition host_re :: "string \<Rightarrow> string \<Rightarrow> rexp" where
  "host_re t n = Seq (Lit ''open.spotify.com'') (Seq intl_re (tail_re t n))"


section \<open>A direct reading of the sanitizer pattern\<close>

text \<open>
  What \<open>fix_filename\<close> does behind the first position of its input, where \<^verbatim>\<open>^\<close> cannot
  match: a forbidden character becomes \<open>_\<close>, and so does whitespace or a period at
  the end of the input or before its final line feed. Proved below to agree with the
  substitution.
\<close>

fun tail_fix :: "string \<Rightarrow> string" where
  "tail_fix [] = []"
| "tail_fix (c # cs) =
     (if is_forbidden c \<or> (is_space_or_dot c \<and> at_eol cs) then CHR ''_'' else c) # tail_fix cs"

text \<open>The matches of the reserved-name alternative \<^verbatim>\<open>(AUX|...|PRN)(?![^.])\<close> at the
  start of an input.\<close>

definition reserved_match :: "string \<Rightarrow> mstate list" where
  "reserved_match s = rmatch True (Seq (Group ''1'' reserved_re) (NotAhead (Cls not_dot))) (0, s, [])"

text \<open>The lookahead \<^verbatim>\<open>(?![^.])\<close>: what follows is a period or nothing.\<close>

definition dot_or_end :: "string \<Rightarrow> bool" where
  "dot_or_end r = (case r of [] \<Rightarrow> True | x # _ \<Rightarrow> x = CHR ''.'')"

text \<open>A reserved name of three letters, and one of three letters and a digit, at the
  start of an input, compared without regard to case.\<close>

definition name3 :: "string \<Rightarrow> string \<Rightarrow> bool" where
  "name3 l s = (case lit_match True l s of Some r \<Rightarrow> dot_or_end r | None \<Rightarrow> False)"

definition name4 :: "string \<Rightarrow> string \<Rightarrow> bool" where
  "name4 l s =
     (case lit_match True l s of
        Some (d # r) \<Rightarrow> is_digit19 d \<and> dot_or_end r
      | _ \<Rightarrow> False)"

text \<open>An output whose characters are those of the input or \<open>_\<close>, position by
  position.\<close>

definition masked :: "string \<Rightarrow> string \<Rightarrow> bool" where
  "masked out s = list_all2 (\<lambda>a b. a = b \<or> a = CHR ''_'') out s"


text \<open>The number of characters of the reserved name at the start of an input, going
  through the names in the order of the pattern; 0 when the input starts with none.\<close>

definition reserved_length :: "string \<Rightarrow> nat" where
  "reserved_length s =
     (if name3 ''AUX'' s then 3 else if name4 ''COM'' s then 4 else if name3 ''CON'' s then 3
      else if name4 ''LPT'' s then 4 else if name3 ''NUL'' s then 3
      else if name3 ''PRN'' s then 3 else 0)"

section \<open>Properties of the duration formatter\<close>

lemma str_nat_nonempty: "str_nat n \<noteq> []"
  by (subst str_nat.simps) simp

lemma str_nat_digit: "n < 10 \<Longrightarrow> str_nat n = [digit_char n]"
  by (subst str_nat.simps) simp

lemma zfill_suffixed: "zfill 2 (str_nat n @ [c]) = str_nat n @ [c]"
proof -
  have "2 \<le> length (str_nat n @ [c])"
    using str_nat_nonempty [of n] by (cases "str_nat n") simp_all
  then show ?thesis
    by (simp add: zfill_def)
qed

text \<open>
  Claim C1 (as amended). For every non-negative seconds value whose floored count is
  between 1 and 59 (zero hours, zero minutes, nonzero seconds), \<open>fmt_seconds\<close> returns
  the decimal seconds followed by \<open>s\<close>, with no zero added: \<open>zfill(2)\<close> is applied to
  the string that already carries the suffix, which has two characters or more.
  So \<open>fmt_seconds 5\<close> is \<open>5s\<close>; and \<open>fmt_seconds 0\<close> is \<open>0s\<close>, \<open>fmt_seconds 65\<close> is
  \<open>01:05\<close>, \<open>fmt_seconds 3661\<close> is \<open>01:01:01\<close>.
\<close>

theorem fmt_seconds_seconds_only:
  "(\<forall>secs. 0 \<le> secs \<and> 1 \<le> \<lfloor>secs\<rfloor> \<and> \<lfloor>secs\<rfloor> < 60 \<longrightarrow>
      fmt_seconds secs = str_nat (nat \<lfloor>secs\<rfloor>) @ ''s'' \<and>
      (\<lfloor>secs\<rfloor> < 10 \<longrightarrow> fmt_seconds secs = [digit_char (nat \<lfloor>secs\<rfloor>), CHR ''s'']))
   \<and> fmt_seconds 0 = ''0s''
   \<and> fmt_seconds 5 = ''5s''
   \<and> fmt_seconds 65 = ''01:05''
   \<and> fmt_seconds 3661 = ''01:01:01''"
proof -
  have general: "fmt_seconds secs = str_nat (nat \<lfloor>secs\<rfloor>) @ ''s'' \<and>
      (\<lfloor>secs\<rfloor> < 10 \<longrightarrow> fmt_seconds secs = [digit_char (nat \<lfloor>secs\<rfloor>), CHR ''s''])"
    if "0 \<le> secs" "1 \<le> \<lfloor>secs\<rfloor>" "\<lfloor>secs\<rfloor> < 60" for secs :: real
  proof -
    define n where "n = \<lfloor>secs\<rfloor>"
    have n: "1 \<le> n" "n < 60"
      using that by (simp_all only: n_def)
    then have parts: "n mod 60 = n" "(n - n) div 60 = 0" "n \<noteq> 0" "\<not> n < 0"
      by simp_all
    have "fmt_seconds secs = zfill 2 (str_int n @ ''s'')"
      unfolding fmt_seconds_def Let_def n_def [symmetric]
      by (simp only: parts) simp
    then have first: "fmt_seconds secs = str_nat (nat n) @ ''s''"
      using parts by (simp only: str_int_def zfill_suffixed if_False)
    moreover have "fmt_seconds secs = [digit_char (nat n), CHR ''s'']" if "n < 10"
    proof -
      from that n have "nat n < 10" by simp
      then show ?thesis using first by (simp add: str_nat_digit)
    qed
    ultimately show ?thesis
      unfolding n_def by blast
  qed
  have e0: "fmt_seconds 0 = ''0s''"
    by (simp add: fmt_seconds_def)
  have e5: "fmt_seconds 5 = ''5s''"
    by (simp add: fmt_seconds_def str_int_def str_nat.simps zfill_def digit_char_def)
  have e65: "fmt_seconds 65 = ''01:05''"
    by (simp add: fmt_seconds_def str_int_def str_nat.simps zfill_def digit_char_def)
  have e3661: "fmt_seconds 3661 = ''01:01:01''"
    by (simp add: fmt_seconds_def str_int_def str_nat.simps zfill_def digit_char_def)
  from general e0 e5 e65 e3661 show ?thesis by blast
qed

theorem fmt_seconds_seconds_only_witness:
  "(0::real) \<le> 7.5 \<and> 1 \<le> \<lfloor>7.5::real\<rfloor> \<and> \<lfloor>7.5::real\<rfloor> < 60 \<and> \<lfloor>7.5::real\<rfloor> < 10 \<and>
   fmt_seconds 7.5 = ''7s''"
proof -
  have fl: "\<lfloor>7.5::real\<rfloor> = 7" by simp
  have "0 \<le> (7.5::real) \<and> 1 \<le> \<lfloor>7.5::real\<rfloor> \<and> \<lfloor>7.5::real\<rfloor> < 60 \<longrightarrow>
      fmt_seconds 7.5 = str_nat (nat \<lfloor>7.5::real\<rfloor>) @ ''s'' \<and>
      (\<lfloor>7.5::real\<rfloor> < 10 \<longrightarrow> fmt_seconds 7.5 = [digit_char (nat \<lfloor>7.5::real\<rfloor>), CHR ''s''])"
    using fmt_seconds_seconds_only by blast
  then show ?thesis
    using fl by (simp add: digit_char_def str_nat_digit)
qed

theorem fmt_seconds_five_counterexample:
  "fmt_seconds 5 = ''5s'' \<and> fmt_seconds 5 \<noteq> ''05s''"
  by (simp add: fmt_seconds_def str_int_def str_nat.simps zfill_def digit_char_def)

section \<open>Properties of the download archive\<close>

lemma digit_char_in: "d < 10 \<Longrightarrow> is_digit (digit_char d)"
  unfolding digit_char_def is_digit_def by (rule nth_mem) simp

lemma str_nat_digits: "list_all is_digit (str_nat n)"
proof (induction n rule: str_nat.induct)
  case (1 n)
  show ?case
  proof (cases "n < 10")
    case True
    then show ?thesis
      using digit_char_in [of n] by (subst str_nat.simps) simp
  next
    case False
    have "n mod 10 < 10" by simp
    then have "is_digit (digit_char (n mod 10))"
      by (rule digit_char_in)
    with False 1 show ?thesis
      by (subst str_nat.simps) simp
  qed
qed

lemma is_digit_not_sign: "is_digit c \<Longrightarrow> c \<noteq> CHR ''+'' \<and> c \<noteq> CHR ''-''"
  unfolding is_digit_def by auto

lemma zfill_str_nat_chars: "list_all is_digit (zfill w (str_nat n))"
proof -
  obtain c cs where s: "str_nat n = c # cs"
    using str_nat_nonempty [of n] by (cases "str_nat n") auto
  have sub: "list_all is_digit (c # cs)"
    using str_nat_digits [of n] by (simp only: s)
  then have "c \<noteq> CHR ''+''" "c \<noteq> CHR ''-''"
    using is_digit_not_sign [of c] by simp_all
  moreover have "is_digit CHR ''0''"
    by (simp add: is_digit_def)
  ultimately show ?thesis
    using sub unfolding zfill_def s by (simp add: list_all_iff)
qed

lemma zfill_str_nat_nonempty: "zfill w (str_nat n) \<noteq> []"
  using str_nat_nonempty [of n] by (cases "str_nat n") (auto simp: zfill_def)

lemma digits_stamp: "list_all is_digit s \<Longrightarrow> list_all is_stamp_char s"
  by (simp add: list_all_iff is_stamp_char_def)

lemma strftime_chars: "list_all is_stamp_char (strftime t)"
  unfolding strftime_def
  by (simp add: digits_stamp zfill_str_nat_chars) (simp add: is_stamp_char_def)

lemma strftime_last: "strftime t \<noteq> [] \<and> is_digit (last (strftime t))"
proof -
  have ne: "zfill 2 (str_nat (second t)) \<noteq> []"
    by (rule zfill_str_nat_nonempty)
  then have "last (zfill 2 (str_nat (second t))) \<in> set (zfill 2 (str_nat (second t)))"
    by (rule last_in_set)
  then have "is_digit (last (zfill 2 (str_nat (second t))))"
    using zfill_str_nat_chars [of 2 "second t"] by (simp add: list_all_iff)
  then show ?thesis
    using ne unfolding strftime_def by simp
qed

lemma is_digit_plain: "is_digit c \<Longrightarrow> \<not> is_space c \<and> c \<noteq> CHR 0x09 \<and> c \<noteq> CHR 0x0D \<and> c \<noteq> CHR ''\<newline>''"
  unfolding is_digit_def is_space_def by auto

lemma is_stamp_char_plain: "is_stamp_char c \<Longrightarrow> c \<noteq> CHR 0x09 \<and> c \<noteq> CHR 0x0D \<and> c \<noteq> CHR ''\<newline>''"
  unfolding is_stamp_char_def using is_digit_plain [of c] by auto

lemma universal_newlines_id: "CHR 0x0D \<notin> set s \<Longrightarrow> universal_newlines s = s"
  by (induction s) auto

lemma universal_newlines_append:
  "a = [] \<or> last a \<noteq> CHR 0x0D \<Longrightarrow>
   universal_newlines (a @ b) = universal_newlines a @ universal_newlines b"
proof (induction a rule: universal_newlines.induct)
  case 1
  then show ?case by simp
next
  case (2 c cs)
  show ?case
  proof (cases "c = CHR 0x0D")
    case False
    with 2 show ?thesis by (cases cs) auto
  next
    case True
    with "2.prems" obtain d ds where cs: "cs = d # ds" by (cases cs) auto
    show ?thesis
    proof (cases "d = CHR ''\<newline>''")
      case True
      with 2 cs \<open>c = CHR 0x0D\<close> show ?thesis by (cases ds) auto
    next
      case False
      with 2 cs \<open>c = CHR 0x0D\<close> show ?thesis by auto
    qed
  qed
qed

lemma universal_newlines_last:
  "a \<noteq> [] \<Longrightarrow> last a = CHR ''\<newline>'' \<Longrightarrow>
   universal_newlines a \<noteq> [] \<and> last (universal_newlines a) = CHR ''\<newline>''"
proof (induction a rule: universal_newlines.induct)
  case 1
  then show ?case by simp
next
  case (2 c cs)
  show ?case
  proof (cases cs)
    case Nil
    with "2.prems" show ?thesis by simp
  next
    case (Cons d ds)
    with "2.prems" have lcs: "last cs = CHR ''\<newline>''" "cs \<noteq> []" by simp_all
    show ?thesis
    proof (cases "c = CHR 0x0D")
      case False
      with 2 lcs show ?thesis by simp
    next
      case cr: True
      show ?thesis
      proof (cases "d = CHR ''\<newline>''")
        case False
        with 2 lcs cr Cons show ?thesis by simp
      next
        case True
        show ?thesis
        proof (cases ds)
          case Nil
          with cr True Cons show ?thesis by simp
        next
          case (Cons e es)
          with lcs \<open>cs = d # ds\<close> have "ds \<noteq> []" "last ds = CHR ''\<newline>''" by simp_all
          with "2.IH"(1) [OF cr \<open>cs = d # ds\<close> True] cr True \<open>cs = d # ds\<close>
          show ?thesis by simp
        qed
      qed
    qed
  qed
qed

lemma universal_newlines_terminated:
  "line_terminated a \<Longrightarrow> line_terminated (universal_newlines a)"
  using universal_newlines_last [of a] by (cases "a = []") (auto simp: line_terminated_def)

lemma readlines_append:
  "line_terminated a \<Longrightarrow> readlines (a @ b) = readlines a @ readlines b"
proof (induction a)
  case Nil
  then show ?case by simp
next
  case (Cons c cs)
  show ?case
  proof (cases "c = CHR ''\<newline>''")
    case True
    with Cons show ?thesis
      by (cases cs) (auto simp: line_terminated_def)
  next
    case False
    with Cons.prems obtain d ds where cs: "cs = d # ds"
      by (cases cs) (auto simp: line_terminated_def)
    with Cons.prems have "line_terminated cs"
      by (simp add: line_terminated_def)
    then have ih: "readlines (cs @ b) = readlines cs @ readlines b"
      by (rule Cons.IH)
    have "readlines cs \<noteq> []"
      unfolding cs by (simp split: list.splits)
    then show ?thesis
      using False ih by (cases "readlines cs") simp_all
  qed
qed

lemma readlines_one: "CHR ''\<newline>'' \<notin> set l \<Longrightarrow> readlines (l @ [CHR ''\<newline>'']) = [l @ [CHR ''\<newline>'']]"
  by (induction l) auto

lemma split_on_nonempty: "split_on sep s \<noteq> []"
  by (induction s) (auto split: list.splits)

lemma split_on_first: "split_on sep s ! 0 = takeWhile (\<lambda>c. c \<noteq> sep) s"
proof (induction s)
  case Nil
  then show ?case by simp
next
  case (Cons c cs)
  then show ?case
    using split_on_nonempty [of sep cs] by (cases "split_on sep cs") auto
qed

lemma strip_keep:
  assumes "z \<noteq> []" "\<not> is_space (hd z)" "\<not> is_space (last z)"
  shows "strip (z @ w) = z @ rev (dropWhile is_space (rev w))"
proof -
  from assms have head_kept: "dropWhile is_space (z @ w) = z @ w"
    by (cases z) simp_all
  from assms have tail_kept: "dropWhile is_space (rev z) = rev z"
    by (cases "rev z") (simp_all add: hd_rev)
  have "dropWhile is_space (rev w @ rev z) = dropWhile is_space (rev w) @ rev z"
  proof (cases "\<forall>c \<in> set (rev w). is_space c")
    case True
    then have "dropWhile is_space (rev w) = []" by simp
    moreover from True have "dropWhile is_space (rev w @ rev z) = dropWhile is_space (rev z)"
      by (intro dropWhile_append2) simp
    ultimately show ?thesis by (simp add: tail_kept)
  next
    case False
    then obtain x where "x \<in> set (rev w)" "\<not> is_space x" by blast
    then show ?thesis by (simp add: dropWhile_append1)
  qed
  then show ?thesis
    by (simp add: strip_def head_kept)
qed

lemma archive_line_no_cr:
  assumes "plain_id song_id" "no_linebreak author_name" "no_linebreak song_name" "no_linebreak filename"
  shows "CHR 0x0D \<notin> set (archive_line song_id now author_name song_name filename)"
proof -
  have "CHR 0x0D \<notin> set (strftime now)"
    using strftime_chars [of now] is_stamp_char_plain by (auto simp: list_all_iff)
  with assms show ?thesis
    by (simp add: archive_line_def plain_id_def no_linebreak_def)
qed

lemma archive_line_body:
  assumes "plain_id song_id" "no_linebreak author_name" "no_linebreak song_name" "no_linebreak filename"
  shows "\<exists>body. archive_line song_id now author_name song_name filename = body @ [CHR ''\<newline>'']
           \<and> CHR ''\<newline>'' \<notin> set body"
proof -
  have "CHR ''\<newline>'' \<notin> set (strftime now)"
    using strftime_chars [of now] is_stamp_char_plain by (auto simp: list_all_iff)
  with assms have "CHR ''\<newline>'' \<notin> set (song_id @ [CHR 0x09] @ strftime now @ [CHR 0x09] @ author_name @
      [CHR 0x09] @ song_name @ [CHR 0x09] @ filename)"
    by (simp add: plain_id_def no_linebreak_def)
  then show ?thesis
    unfolding archive_line_def by (intro exI conjI) (simp_all del: set_append)
qed

lemma archive_line_field:
  assumes "plain_id song_id"
  shows "split_on CHR 0x09 (strip (archive_line song_id now author_name song_name filename)) ! 0 = song_id"
proof -
  define z where "z = song_id @ [CHR 0x09] @ strftime now"
  define w where "w = [CHR 0x09] @ author_name @ [CHR 0x09] @ song_name @ [CHR 0x09] @ filename @ [CHR ''\<newline>'']"
  have line: "archive_line song_id now author_name song_name filename = z @ w"
    by (simp add: archive_line_def z_def w_def)
  from assms have id: "song_id \<noteq> []" "\<not> is_space (hd song_id)" "CHR 0x09 \<notin> set song_id"
    by (simp_all add: plain_id_def)
  have "z \<noteq> []" using id by (simp add: z_def)
  moreover have "\<not> is_space (hd z)" using id by (simp add: z_def)
  moreover have "\<not> is_space (last z)"
    using strftime_last [of now] is_digit_plain by (simp add: z_def)
  ultimately have "strip (z @ w) = z @ rev (dropWhile is_space (rev w))"
    by (rule strip_keep)
  then have "strip (z @ w) = song_id @ CHR 0x09 # (strftime now @ rev (dropWhile is_space (rev w)))"
    by (simp add: z_def)
  then have "takeWhile (\<lambda>c. c \<noteq> CHR 0x09) (strip (z @ w)) = song_id"
    using id by (auto simp: takeWhile_tail)
  then show ?thesis
    by (simp add: split_on_first line)
qed

lemma ids_of_text_append_line:
  assumes "line_terminated old" "plain_id song_id" "no_linebreak author_name"
    "no_linebreak song_name" "no_linebreak filename"
  shows "ids_of_text (old @ archive_line song_id now author_name song_name filename) =
         ids_of_text old @ [song_id]"
proof -
  let ?l = "archive_line song_id now author_name song_name filename"
  obtain body where body: "?l = body @ [CHR ''\<newline>'']" "CHR ''\<newline>'' \<notin> set body"
    using archive_line_body [OF assms(2-5)] by blast
  have "old = [] \<or> last old \<noteq> CHR 0x0D"
    using assms(1) by (auto simp: line_terminated_def)
  then have "universal_newlines (old @ ?l) = universal_newlines old @ universal_newlines ?l"
    by (rule universal_newlines_append)
  also have "universal_newlines ?l = ?l"
    using archive_line_no_cr [OF assms(2-5)] by (rule universal_newlines_id)
  finally have "readlines (universal_newlines (old @ ?l)) =
      readlines (universal_newlines old) @ readlines ?l"
    using readlines_append [OF universal_newlines_terminated [OF assms(1)]] by simp
  also have "readlines ?l = [?l]"
    using readlines_one [OF body(2)] by (simp only: body(1))
  finally show ?thesis
    using archive_line_field [OF assms(2)] by (simp add: ids_of_text_def)
qed

lemma archive_line_terminated:
  "line_terminated (old @ archive_line song_id now author_name song_name filename)"
  by (simp add: line_terminated_def archive_line_def)

lemma os_mkdir_Inr:
  "os_mkdir fs p = Inr fs' \<Longrightarrow> fs p = None \<and> fs (butlast p) = Some Dir \<and> fs' = fs(p \<mapsto> Dir)"
  by (auto simp: os_mkdir_def split: if_splits option.splits node.splits)

lemma os_mkdir_Inl:
  "os_mkdir fs p = Inl e \<Longrightarrow>
     (e = FileExistsError \<and> fs p \<noteq> None) \<or>
     (e = FileNotFoundError \<and> fs p = None \<and> fs (butlast p) = None) \<or>
     (e = NotADirectoryError \<and> fs p = None \<and> (\<exists>c. fs (butlast p) = Some (File c)))"
  by (auto simp: os_mkdir_def split: if_splits option.splits node.splits)

lemma mkdir_parents_frame:
  "snd (mkdir_parents fs p) q = fs q \<or>
   (prefix q p \<and> fs q = None \<and> snd (mkdir_parents fs p) q = Some Dir)"
proof (induction fs p rule: mkdir_parents.induct)
  case (1 fs p)
  show ?case
  proof (cases "os_mkdir fs p")
    case (Inr fs')
    then show ?thesis
      using os_mkdir_Inr [OF Inr] by (subst (1 2) mkdir_parents.simps) auto
  next
    case (Inl e)
    show ?thesis
    proof (cases "e = FileNotFoundError \<and> p \<noteq> []")
      case False
      with Inl show ?thesis
        by (subst (1 2) mkdir_parents.simps) (auto split: error.splits)
    next
      case True
      then have e: "e = FileNotFoundError" and p: "p \<noteq> []" by simp_all
      obtain r fs' where rec: "mkdir_parents fs (butlast p) = (r, fs')"
        by (cases "mkdir_parents fs (butlast p)")
      have ih: "fs' q = fs q \<or> (prefix q (butlast p) \<and> fs q = None \<and> fs' q = Some Dir)"
        using "1.IH" [OF Inl e p] rec by simp
      have pre: "prefix q (butlast p) \<Longrightarrow> prefix q p"
        using prefixeq_butlast [of p] by (rule prefix_order.trans [rotated])
      show ?thesis
      proof (cases r)
        case (Some e')
        with Inl e p rec ih pre show ?thesis
          by (subst (1 2) mkdir_parents.simps) auto
      next
        case None
        show ?thesis
        proof (cases "os_mkdir fs' p")
          case (Inr fs'')
          from os_mkdir_Inr [OF Inr] have "fs'' = fs'(p \<mapsto> Dir)" "fs' p = None" by simp_all
          moreover have "mkdir_parents fs p = (None, fs'')"
            using Inl e p rec None Inr by (subst mkdir_parents.simps) simp
          ultimately show ?thesis
            using ih pre by auto
        next
          case inl2: (Inl e2)
          have "snd (mkdir_parents fs p) = fs'"
            using Inl e p rec None inl2 by (subst mkdir_parents.simps) (simp split: error.splits)
          then show ?thesis
            using ih pre by auto
        qed
      qed
    qed
  qed
qed

lemma mkdir_parents_creates:
  "fst (mkdir_parents fs p) = None \<Longrightarrow> snd (mkdir_parents fs p) p = Some Dir"
proof (induction fs p rule: mkdir_parents.induct)
  case (1 fs p)
  show ?case
  proof (cases "os_mkdir fs p")
    case (Inr fs')
    then show ?thesis
      using os_mkdir_Inr [OF Inr] by (subst mkdir_parents.simps) auto
  next
    case (Inl e)
    show ?thesis
    proof (cases "e = FileNotFoundError \<and> p \<noteq> []")
      case False
      with Inl "1.prems" show ?thesis
        by (subst mkdir_parents.simps, subst (asm) mkdir_parents.simps)
          (auto split: error.splits if_splits)
    next
      case True
      then have e: "e = FileNotFoundError" and p: "p \<noteq> []" by simp_all
      obtain r fs' where rec: "mkdir_parents fs (butlast p) = (r, fs')"
        by (cases "mkdir_parents fs (butlast p)")
      show ?thesis
      proof (cases "os_mkdir fs' p")
        case (Inr fs'')
        from os_mkdir_Inr [OF Inr] have "fs'' p = Some Dir" by simp
        moreover have "r = None"
          using "1.prems" Inl e p rec by (subst (asm) mkdir_parents.simps) (auto split: option.splits)
        ultimately show ?thesis
          using Inl e p rec Inr by (subst mkdir_parents.simps) simp
      next
        case inl2: (Inl e2)
        with "1.prems" Inl e p rec show ?thesis
          by (subst mkdir_parents.simps, subst (asm) mkdir_parents.simps)
            (auto split: error.splits if_splits option.splits)
      qed
    qed
  qed
qed

lemma mkdir_parents_succeeds:
  "fs [] = Some Dir \<Longrightarrow> (\<forall>q c. prefix q p \<longrightarrow> fs q \<noteq> Some (File c)) \<Longrightarrow>
   fst (mkdir_parents fs p) = None"
proof (induction fs p rule: mkdir_parents.induct)
  case (1 fs p)
  have nofile: "fs q \<noteq> Some (File c)" if "prefix q p" for q c
    using "1.prems"(2) that by blast
  show ?case
  proof (cases "os_mkdir fs p")
    case (Inr fs')
    then show ?thesis
      by (subst mkdir_parents.simps) simp
  next
    case (Inl e)
    from os_mkdir_Inl [OF Inl] consider
      (ex) "e = FileExistsError" "fs p \<noteq> None"
      | (nf) "e = FileNotFoundError" "fs p = None" "fs (butlast p) = None"
      | (nd) c where "e = NotADirectoryError" "fs p = None" "fs (butlast p) = Some (File c)"
      by (elim disjE conjE exE) blast+
    then show ?thesis
    proof cases
      case ex
      then obtain n where n: "fs p = Some n" by blast
      with nofile [of p] have "fs p = Some Dir" by (cases n) auto
      with Inl ex show ?thesis
        by (subst mkdir_parents.simps) simp
    next
      case nd
      with nofile [of "butlast p" c] show ?thesis
        by (simp add: prefixeq_butlast)
    next
      case nf
      with "1.prems"(1) have p: "p \<noteq> []" by auto
      obtain r fs' where rec: "mkdir_parents fs (butlast p) = (r, fs')"
        by (cases "mkdir_parents fs (butlast p)")
      have "\<forall>q c. prefix q (butlast p) \<longrightarrow> fs q \<noteq> Some (File c)"
      proof (intro allI impI)
        fix q c
        assume "prefix q (butlast p)"
        then have "prefix q p"
          using prefixeq_butlast [of p] by (rule prefix_order.trans)
        then show "fs q \<noteq> Some (File c)" by (rule nofile)
      qed
      from "1.IH" [OF Inl nf(1) p "1.prems"(1) this] rec have r: "r = None" by simp
      then have parent: "fs' (butlast p) = Some Dir"
        using mkdir_parents_creates [of fs "butlast p"] rec by simp
      have "\<not> prefix p (butlast p)"
      proof
        assume "prefix p (butlast p)"
        then have "length p \<le> length (butlast p)" by (rule prefix_length_le)
        then have "length p \<le> length p - 1" by (simp only: length_butlast)
        with p show False by (cases p) simp_all
      qed
      then have "fs' p = None"
        using mkdir_parents_frame [of fs "butlast p" p] rec nf by auto
      with parent have "os_mkdir fs' p = Inr (fs'(p \<mapsto> Dir))"
        by (simp add: os_mkdir_def)
      with Inl nf p rec r show ?thesis
        by (subst mkdir_parents.simps) simp
    qed
  qed
qed

lemma walk_directories: "\<forall>q \<in> set qs. fs q = Some Dir \<Longrightarrow> walk fs qs = None"
  by (induction qs) simp_all

lemma add_to_archive_result:
  assumes "\<forall>q \<in> set (directories_to (song_archive cfg)). fs q = Some Dir"
    "fs (song_archive cfg) \<noteq> Some Dir"
  shows "add_to_archive cfg now song_id filename author_name song_name fs =
     (None, fs(song_archive cfg \<mapsto>
        File (archive_text fs (song_archive cfg) @ archive_line song_id now author_name song_name filename)))"
proof -
  have w: "walk fs (directories_to (song_archive cfg)) = None"
    using assms(1) by (rule walk_directories)
  show ?thesis
  proof (cases "fs (song_archive cfg)")
    case None
    with w show ?thesis
      by (simp add: add_to_archive_def path_exists_def open_write_def archive_text_def Let_def)
  next
    case (Some n)
    with assms(2) obtain old where "fs (song_archive cfg) = Some (File old)"
      by (cases n) auto
    with w show ?thesis
      by (simp add: add_to_archive_def path_exists_def open_append_def archive_text_def Let_def)
  qed
qed

lemma archive_not_on_its_way:
  assumes "\<forall>q \<in> set (directories_to p). fs q = Some Dir" "fs p \<noteq> Some Dir"
  shows "p \<notin> set (directories_to p)"
  using assms by blast

lemma get_previously_downloaded_text:
  assumes "fs (song_archive cfg) \<noteq> Some Dir"
  shows "get_previously_downloaded cfg fs = Inr (ids_of_text (archive_text fs (song_archive cfg)))"
proof (cases "fs (song_archive cfg)")
  case None
  then show ?thesis
    by (simp add: get_previously_downloaded_def path_exists_def archive_text_def ids_of_text_def)
next
  case (Some n)
  with assms obtain old where "fs (song_archive cfg) = Some (File old)"
    by (cases n) auto
  then show ?thesis
    by (simp add: get_previously_downloaded_def path_exists_def open_read_def archive_text_def)
qed

text \<open>
  Claim C7 (as amended). Where the archive can be written (every directory on the way
  to it exists and the archive path is not itself a directory), two calls of
  \<open>add_to_archive\<close> with the same id both return without raising; the file then holds
  what it held before, followed by the first full line, followed by the second, and
  nothing else in the file system has changed. When in addition the earlier text is
  empty or ends in a line feed, the id is not empty, does not start with whitespace and
  has no tab, and neither the id nor another field has a line break, a following
  \<open>get_previously_downloaded\<close> returns what it returned before the two calls, in the
  same order, followed by the id twice.
\<close>

theorem add_to_archive_twice:
  assumes dirs: "\<forall>q \<in> set (directories_to (song_archive cfg)). fs q = Some Dir"
    and not_dir: "fs (song_archive cfg) \<noteq> Some Dir"
  shows "let archive = song_archive cfg;
             old = archive_text fs archive;
             line1 = archive_line song_id now1 author1 song1 filename1;
             line2 = archive_line song_id now2 author2 song2 filename2;
             (r1, fs1) = add_to_archive cfg now1 song_id filename1 author1 song1 fs;
             (r2, fs2) = add_to_archive cfg now2 song_id filename2 author2 song2 fs1
         in r1 = None \<and> r2 = None \<and>
            fs1 archive = Some (File (old @ line1)) \<and>
            fs2 archive = Some (File (old @ line1 @ line2)) \<and>
            (\<forall>q. q \<noteq> archive \<longrightarrow> fs2 q = fs q) \<and>
            get_previously_downloaded cfg fs = Inr (ids_of_text old) \<and>
            (line_terminated old \<and> plain_id song_id \<and>
             no_linebreak author1 \<and> no_linebreak song1 \<and> no_linebreak filename1 \<and>
             no_linebreak author2 \<and> no_linebreak song2 \<and> no_linebreak filename2 \<longrightarrow>
               get_previously_downloaded cfg fs2 = Inr (ids_of_text old @ [song_id, song_id]))"
proof -
  define archive where "archive = song_archive cfg"
  define old where "old = archive_text fs archive"
  define line1 where "line1 = archive_line song_id now1 author1 song1 filename1"
  define line2 where "line2 = archive_line song_id now2 author2 song2 filename2"
  define fs1 where "fs1 = fs(archive \<mapsto> File (old @ line1))"
  define fs2 where "fs2 = fs1(archive \<mapsto> File (old @ line1 @ line2))"
  have step1: "add_to_archive cfg now1 song_id filename1 author1 song1 fs = (None, fs1)"
    using add_to_archive_result [OF dirs not_dir]
    by (simp add: fs1_def old_def line1_def archive_def)
  have away: "archive \<notin> set (directories_to archive)"
    unfolding archive_def using dirs not_dir by (rule archive_not_on_its_way)
  have dirs1: "\<forall>q \<in> set (directories_to (song_archive cfg)). fs1 q = Some Dir"
  proof
    fix q
    assume q: "q \<in> set (directories_to (song_archive cfg))"
    with away have "q \<noteq> archive" by (auto simp: archive_def)
    with q dirs show "fs1 q = Some Dir" by (simp add: fs1_def)
  qed
  have not_dir1: "fs1 (song_archive cfg) \<noteq> Some Dir"
    by (simp add: fs1_def archive_def)
  have text1: "archive_text fs1 (song_archive cfg) = old @ line1"
    by (simp add: archive_text_def fs1_def archive_def)
  have step2: "add_to_archive cfg now2 song_id filename2 author2 song2 fs1 = (None, fs2)"
    using add_to_archive_result [OF dirs1 not_dir1]
    by (simp add: text1 fs2_def line2_def archive_def)
  have before: "get_previously_downloaded cfg fs = Inr (ids_of_text old)"
    unfolding old_def archive_def using not_dir by (rule get_previously_downloaded_text)
  have ids: "get_previously_downloaded cfg fs2 = Inr (ids_of_text old @ [song_id, song_id])"
    if wf: "line_terminated old" "plain_id song_id"
      "no_linebreak author1" "no_linebreak song1" "no_linebreak filename1"
      "no_linebreak author2" "no_linebreak song2" "no_linebreak filename2"
  proof -
    have "ids_of_text (old @ line1) = ids_of_text old @ [song_id]"
      unfolding line1_def using wf by (intro ids_of_text_append_line)
    moreover have "line_terminated (old @ line1)"
      unfolding line1_def by (rule archive_line_terminated)
    then have "ids_of_text ((old @ line1) @ line2) = ids_of_text (old @ line1) @ [song_id]"
      unfolding line2_def using wf by (intro ids_of_text_append_line)
    ultimately have "ids_of_text (old @ line1 @ line2) = ids_of_text old @ [song_id, song_id]"
      by simp
    then show ?thesis
      by (simp add: get_previously_downloaded_def path_exists_def open_read_def fs2_def
          archive_def)
  qed
  have "fs1 archive = Some (File (old @ line1))"
    by (simp add: fs1_def)
  moreover have "fs2 archive = Some (File (old @ line1 @ line2))"
    by (simp add: fs2_def)
  moreover have "\<forall>q. q \<noteq> archive \<longrightarrow> fs2 q = fs q"
    by (simp add: fs2_def fs1_def)
  ultimately show ?thesis
    using ids before
    unfolding Let_def step1 step2 prod.case archive_def [symmetric] old_def [symmetric]
      line1_def [symmetric] line2_def [symmetric]
    by blast
qed

text \<open>
  Claim C9. When nothing exists at the archive path, \<open>get_previously_downloaded\<close>
  returns the empty list and raises nothing; when nothing exists at the manifest path
  of a directory, \<open>get_directory_song_ids\<close> returns the empty list and raises nothing.
\<close>

theorem missing_archive_reads_empty:
  "(fs (song_archive cfg) = None \<longrightarrow> get_previously_downloaded cfg fs = Inr []) \<and>
   (fs (joinpath download_path ''.song_ids'') = None \<longrightarrow>
      get_directory_song_ids cfg download_path fs = Inr [])"
  by (simp add: get_previously_downloaded_def get_directory_song_ids_def path_exists_def
      is_file_def)

text \<open>
  Claim C8. With directory archives disabled: \<open>add_to_directory_song_ids\<close> returns
  without touching the file system; \<open>create_download_directory\<close> leaves every path
  that is not a prefix of the download path as it was, in particular the manifest
  \<open>.song_ids\<close> inside it, while a call that returns normally leaves a directory at the
  download path (and it does return normally when the starting directory exists and no
  prefix of the download path is a file); and \<open>get_directory_song_ids\<close> returns the
  empty list whatever the file system holds.
\<close>

theorem disabled_directory_archives_noop:
  assumes "disable_directory_archives cfg"
  shows "add_to_directory_song_ids cfg now download_path song_id filename author_name song_name fs
           = (None, fs) \<and>
         (\<forall>q. \<not> prefix q download_path \<longrightarrow>
            snd (create_download_directory cfg download_path fs) q = fs q) \<and>
         snd (create_download_directory cfg download_path fs) (joinpath download_path ''.song_ids'')
           = fs (joinpath download_path ''.song_ids'') \<and>
         (fst (create_download_directory cfg download_path fs) = None \<longrightarrow>
            snd (create_download_directory cfg download_path fs) download_path = Some Dir) \<and>
         (fs [] = Some Dir \<and> (\<forall>q c. prefix q download_path \<longrightarrow> fs q \<noteq> Some (File c)) \<longrightarrow>
            fst (create_download_directory cfg download_path fs) = None) \<and>
         get_directory_song_ids cfg download_path fs = Inr []"
proof -
  have cdd: "create_download_directory cfg download_path fs = mkdir_parents fs download_path"
    using assms
    by (cases "mkdir_parents fs download_path")
      (auto simp: create_download_directory_def Let_def split: option.splits)
  have frame: "snd (mkdir_parents fs download_path) q = fs q" if "\<not> prefix q download_path" for q
    using mkdir_parents_frame [of fs download_path q] that by blast
  have "\<not> prefix (joinpath download_path ''.song_ids'') download_path"
  proof
    assume "prefix (joinpath download_path ''.song_ids'') download_path"
    then have "length (joinpath download_path ''.song_ids'') \<le> length download_path"
      by (rule prefix_length_le)
    then show False by (simp add: joinpath_def)
  qed
  then have hidden: "snd (mkdir_parents fs download_path) (joinpath download_path ''.song_ids'')
      = fs (joinpath download_path ''.song_ids'')"
    by (rule frame)
  have add: "add_to_directory_song_ids cfg now download_path song_id filename author_name song_name fs
      = (None, fs)"
    using assms by (simp add: add_to_directory_song_ids_def)
  have get: "get_directory_song_ids cfg download_path fs = Inr []"
    using assms by (simp add: get_directory_song_ids_def)
  show ?thesis
    unfolding cdd
    using add get hidden frame mkdir_parents_creates [of fs download_path]
      mkdir_parents_succeeds [of fs download_path]
    by blast
qed

theorem add_to_archive_twice_witness:
  "let cfg = \<lparr>song_archive = [''data'', ''archive.txt''], disable_directory_archives = False\<rparr>;
       old = ''  a'' @ [CHR 0x09] @ ''x'' @ [CHR 0x0D, CHR ''\<newline>''] @
             ''c'' @ [CHR 0x09] @ ''y'' @ [CHR ''\<newline>''];
       fs = [[] \<mapsto> Dir, [''data''] \<mapsto> Dir, [''data'', ''archive.txt''] \<mapsto> File old];
       now = \<lparr>year = 2024, month = 1, day = 2, hour = 3, minute = 4, second = 5\<rparr>;
       (r1, fs1) = add_to_archive cfg now ''4uLU6hMCjMI75M1A2tKUQC'' ''a.ogg'' ''A'' ''S'' fs;
       (r2, fs2) = add_to_archive cfg now ''4uLU6hMCjMI75M1A2tKUQC'' ''b.ogg'' ''A'' ''S'' fs1
   in directories_to (song_archive cfg) = [[], [''data'']] \<and>
      fs [] = Some Dir \<and> fs [''data''] = Some Dir \<and> fs (song_archive cfg) \<noteq> Some Dir \<and>
      line_terminated old \<and> plain_id ''4uLU6hMCjMI75M1A2tKUQC'' \<and>
      r1 = None \<and> r2 = None \<and>
      get_previously_downloaded cfg fs = Inr [''a'', ''c''] \<and>
      get_previously_downloaded cfg fs2 =
        Inr [''a'', ''c'', ''4uLU6hMCjMI75M1A2tKUQC'', ''4uLU6hMCjMI75M1A2tKUQC'']"
proof -
  define cfg where "cfg = \<lparr>song_archive = [''data'', ''archive.txt''], disable_directory_archives = False\<rparr>"
  define old where "old = ''  a'' @ [CHR 0x09] @ ''x'' @ [CHR 0x0D, CHR ''\<newline>''] @
             ''c'' @ [CHR 0x09] @ ''y'' @ [CHR ''\<newline>'']"
  define fs :: filesystem
    where "fs = [[] \<mapsto> Dir, [''data''] \<mapsto> Dir, [''data'', ''archive.txt''] \<mapsto> File old]"
  define now where "now = \<lparr>year = 2024, month = 1, day = 2, hour = 3, minute = 4, second = (5::nat)\<rparr>"
  have way: "directories_to (song_archive cfg) = [[], [''data'']]"
    by (simp add: directories_to_def cfg_def)
  have root: "fs [] = Some Dir" and data: "fs [''data''] = Some Dir"
    by (simp_all add: fs_def)
  have h1: "\<forall>q \<in> set (directories_to (song_archive cfg)). fs q = Some Dir"
    using root data by (simp add: way)
  have h2: "fs (song_archive cfg) \<noteq> Some Dir"
    by (simp add: fs_def cfg_def)
  have held: "archive_text fs (song_archive cfg) = old"
    by (simp add: archive_text_def fs_def cfg_def)
  have wf: "line_terminated old" "plain_id ''4uLU6hMCjMI75M1A2tKUQC''"
    "no_linebreak ''A''" "no_linebreak ''S''" "no_linebreak ''a.ogg''" "no_linebreak ''b.ogg''"
    by (simp_all add: line_terminated_def plain_id_def no_linebreak_def is_space_def old_def)
  have earlier: "ids_of_text old = [''a'', ''c'']"
    unfolding old_def by code_simp
  note inst = add_to_archive_twice [OF h1 h2, of "''4uLU6hMCjMI75M1A2tKUQC''" now "''A''" "''S''"
      "''a.ogg''" now "''A''" "''S''" "''b.ogg''"]
  show ?thesis
    using inst way root data h2 wf
    unfolding Let_def case_prod_beta held earlier cfg_def [symmetric] old_def [symmetric]
      fs_def [symmetric] now_def [symmetric]
    by simp
qed

theorem unterminated_archive_counterexample:
  "(let cfg = \<lparr>song_archive = [''archive.txt''], disable_directory_archives = False\<rparr>;
        fs = [[] \<mapsto> Dir, [''archive.txt''] \<mapsto> File ''x''];
        now = \<lparr>year = 2024, month = 1, day = 2, hour = 3, minute = 4, second = 5\<rparr>;
        (r1, fs1) = add_to_archive cfg now ''4uLU6hMCjMI75M1A2tKUQC'' ''a.ogg'' ''A'' ''S'' fs;
        (r2, fs2) = add_to_archive cfg now ''4uLU6hMCjMI75M1A2tKUQC'' ''b.ogg'' ''A'' ''S'' fs1
    in r1 = None \<and> r2 = None \<and>
       get_previously_downloaded cfg fs2 =
         Inr [''x4uLU6hMCjMI75M1A2tKUQC'', ''4uLU6hMCjMI75M1A2tKUQC'']) \<and>
   (let cfg = \<lparr>song_archive = [''data'', ''archive.txt''], disable_directory_archives = False\<rparr>;
        fs = [[] \<mapsto> Dir];
        now = \<lparr>year = 2024, month = 1, day = 2, hour = 3, minute = 4, second = 5\<rparr>
    in fst (add_to_archive cfg now ''4uLU6hMCjMI75M1A2tKUQC'' ''a.ogg'' ''A'' ''S'' fs) =
         Some FileNotFoundError) \<and>
   (let cfg = \<lparr>song_archive = [''archive.txt''], disable_directory_archives = False\<rparr>;
        fs = [[] \<mapsto> Dir];
        now = \<lparr>year = 2024, month = 1, day = 2, hour = 3, minute = 4, second = 5\<rparr>;
        (r1, fs1) = add_to_archive cfg now '' ab'' ''a.ogg'' ''A'' ''S'' fs;
        (r2, fs2) = add_to_archive cfg now '' ab'' ''b.ogg'' ''A'' ''S'' fs1
    in r1 = None \<and> r2 = None \<and> get_previously_downloaded cfg fs2 = Inr [''ab'', ''ab''])"
  by code_simp

theorem missing_archive_reads_empty_witness:
  "let cfg = \<lparr>song_archive = [''archive.txt''], disable_directory_archives = False\<rparr>;
       fs = [[] \<mapsto> Dir, [''music''] \<mapsto> Dir]
   in fs (song_archive cfg) = None \<and> get_previously_downloaded cfg fs = Inr [] \<and>
      fs (joinpath [''music''] ''.song_ids'') = None \<and>
      get_directory_song_ids cfg [''music''] fs = Inr []"
proof -
  define cfg where "cfg = \<lparr>song_archive = [''archive.txt''], disable_directory_archives = False\<rparr>"
  define fs :: filesystem where "fs = [[] \<mapsto> Dir, [''music''] \<mapsto> Dir]"
  have h1: "fs (song_archive cfg) = None"
    by (simp add: fs_def cfg_def)
  have h2: "fs (joinpath [''music''] ''.song_ids'') = None"
    by (simp add: fs_def joinpath_def)
  show ?thesis
    using missing_archive_reads_empty [of fs cfg "[''music'']"] h1 h2
    unfolding Let_def cfg_def [symmetric] fs_def [symmetric]
    by simp
qed

theorem disabled_directory_archives_noop_witness:
  "let cfg = \<lparr>song_archive = [''archive.txt''], disable_directory_archives = True\<rparr>;
       fs = [[] \<mapsto> Dir];
       now = \<lparr>year = 2024, month = 1, day = 2, hour = 3, minute = 4, second = 5\<rparr>;
       p = [''music'', ''album'']
   in disable_directory_archives cfg \<and>
      add_to_directory_song_ids cfg now p ''4uLU6hMCjMI75M1A2tKUQC'' ''a.ogg'' ''A'' ''S'' fs = (None, fs) \<and>
      fst (create_download_directory cfg p fs) = None \<and>
      snd (create_download_directory cfg p fs) p = Some Dir \<and>
      snd (create_download_directory cfg p fs) (joinpath p ''.song_ids'') = None \<and>
      get_directory_song_ids cfg p fs = Inr []"
proof -
  define cfg where "cfg = \<lparr>song_archive = [''archive.txt''], disable_directory_archives = True\<rparr>"
  define fs :: filesystem where "fs = [[] \<mapsto> Dir]"
  define now where "now = \<lparr>year = 2024, month = 1, day = 2, hour = 3, minute = 4, second = (5::nat)\<rparr>"
  define p where "p = [''music'', ''album'']"
  have h: "disable_directory_archives cfg"
    by (simp add: cfg_def)
  have root: "fs [] = Some Dir"
    by (simp add: fs_def)
  have nofile: "\<forall>q c. prefix q p \<longrightarrow> fs q \<noteq> Some (File c)"
    by (simp add: fs_def)
  have hidden: "fs (joinpath p ''.song_ids'') = None"
    by (simp add: fs_def joinpath_def p_def)
  note inst = disabled_directory_archives_noop [OF h, of now p "''4uLU6hMCjMI75M1A2tKUQC''"
      "''a.ogg''" "''A''" "''S''" fs]
  show ?thesis
    unfolding Let_def cfg_def [symmetric] fs_def [symmetric] now_def [symmetric] p_def [symmetric]
    using inst h root nofile hidden by simp
qed

section \<open>The matcher on the identifier patterns\<close>

lemma lit_match_prefix:
  "lit_match False l s = (if prefix l s then Some (drop (length l) s) else None)"
proof (induction l arbitrary: s)
  case Nil
  then show ?case by simp
next
  case (Cons a l)
  then show ?case by (cases s) (simp_all add: char_eq_def)
qed

lemma rmatch_Lit:
  "rmatch False (Lit l) (i, s, g) = (if prefix l s then [(i + length l, drop (length l) s, g)] else [])"
  by (simp add: lit_match_prefix)

lemma rmatch_Seq_Lit:
  "rmatch False (Seq (Lit l) r) (i, s, g) =
     (if prefix l s then rmatch False r (i + length l, drop (length l) s, g) else [])"
  by (simp add: lit_match_prefix)

lemma rmatch_rep_Cls:
  "rmatch ic (rep n (Cls P)) (i, s, g) =
     (if n \<le> length s \<and> list_all P (take n s) then [(i + n, drop n s, g)] else [])"
proof (induction n arbitrary: i s)
  case 0
  then show ?case by simp
next
  case (Suc n)
  show ?case
  proof (cases s)
    case Nil
    then show ?thesis by simp
  next
    case (Cons c cs)
    then show ?thesis
      using Suc [of "Suc i" cs] by simp
  qed
qed

lemma rmatch_Bol_later: "rmatch ic (Seq Bol r) (Suc i, s, g) = []"
  by simp

lemma search_from_Bol_later: "search_from ic (Seq Bol r) (Suc i) s = None"
  by (induction s arbitrary: i) simp_all

lemma re_search_Bol:
  "re_search ic (Seq Bol r) s =
     (case rmatch ic r (0, s, []) of m # _ \<Rightarrow> Some m | [] \<Rightarrow> None)"
  by (cases s) (simp_all add: re_search_def search_from_Bol_later split: list.splits)

lemma prefix_append_drop: "prefix (a @ b) s \<longleftrightarrow> prefix a s \<and> prefix b (drop (length a) s)"
  by (auto simp: prefix_def)

lemma is_id_take: "is_id (take 22 x) \<longleftrightarrow> 22 \<le> length x \<and> list_all is_alnum (take 22 x)"
  by (auto simp: is_id_def min_def)

lemma rmatch_id_group:
  "rmatch False (Group n (rep 22 (Cls is_alnum))) (i, x, g) =
     (if is_id (take 22 x) then [(i + 22, drop 22 x, (n, take 22 x) # g)] else [])"
  by (simp add: rmatch_rep_Cls is_id_take)

lemma rmatch_Eol: "rmatch ic Eol (i, s, g) = (if at_eol s then [(i, s, g)] else [])"
  by (simp add: at_eol_def)

lemma uri_rmatch:
  "rmatch False (Seq (Lit (''spotify:'' @ t @ '':'')) (Seq (Group n (rep 22 (Cls is_alnum))) Eol)) (0, s, []) =
     (case uri_id t s of
        Some x \<Rightarrow> [(length (''spotify:'' @ t @ '':'') + 22, drop 22 (drop (length (''spotify:'' @ t @ '':'')) s), [(n, x)])]
      | None \<Rightarrow> [])"
  unfolding rmatch_Seq_Lit
  by (simp add: rmatch_id_group rmatch_Eol uri_id_def Let_def del: rmatch.simps(4,11))

lemma uri_search:
  "(case re_search False (uri_re t n) s of Some m \<Rightarrow> group n m | None \<Rightarrow> None) = uri_id t s"
  "(re_search False (uri_re t n) s = None) = (uri_id t s = None)"
  unfolding uri_re_def re_search_Bol uri_rmatch
  by (simp_all add: group_def split: option.splits)

lemma set_rmatch_Seq:
  "set (rmatch ic (Seq a b) st) = (\<Union>st' \<in> set (rmatch ic a st). set (rmatch ic b st'))"
  by simp

lemma set_rmatch_Many1:
  "set (rmatch ic (Many1 P) (i, s, g)) =
     {(i + k, drop k s, g) | k. 1 \<le> k \<and> k \<le> length (takeWhile P s)}"
  by (auto simp: image_iff) 

lemma set_rmatch_Many1Lazy:
  "set (rmatch ic (Many1Lazy P) (i, s, g)) =
     {(i + k, drop k s, g) | k. 1 \<le> k \<and> k \<le> length (takeWhile P s)}"
  by (auto simp: image_iff)

lemma takeWhile_stops:
  assumes "k < length xs" "\<not> P (xs ! k)"
  shows "length (takeWhile P xs) \<le> k"
proof (rule ccontr)
  assume "\<not> length (takeWhile P xs) \<le> k"
  then have "k < length (takeWhile P xs)" by simp
  then have "P (takeWhile P xs ! k)"
    using nth_mem set_takeWhileD by metis
  moreover have "takeWhile P xs ! k = xs ! k"
    using \<open>k < length (takeWhile P xs)\<close> by (rule takeWhile_nth)
  ultimately show False using assms by simp
qed

lemma drop_to_eol:
  assumes "1 \<le> k" "k \<le> length (takeWhile not_newline b)" "at_eol (drop k b)"
  shows "k = length (takeWhile not_newline b)"
proof (cases "drop k b = []")
  case True
  then have "length b \<le> k" by simp
  moreover have "length (takeWhile not_newline b) \<le> length b"
    by (rule length_takeWhile_le)
  ultimately show ?thesis using assms(2) by simp
next
  case False
  with assms(3) have d: "drop k b = [CHR ''\<newline>'']" by (simp add: at_eol_def)
  then have k: "k < length b"
    by (cases "k < length b") simp_all
  then have "b ! k = hd (drop k b)"
    by (simp add: hd_drop_conv_nth)
  with d have "\<not> not_newline (b ! k)" by (simp add: not_newline_def)
  with k have "length (takeWhile not_newline b) \<le> k" by (rule takeWhile_stops)
  with assms(2) show ?thesis by simp
qed

lemma query_lazy_eol:
  "(\<exists>k. 1 \<le> k \<and> k \<le> length (takeWhile not_newline b) \<and> at_eol (drop k b)) \<longleftrightarrow>
   takeWhile not_newline b \<noteq> [] \<and> at_eol (dropWhile not_newline b)"
proof
  assume "\<exists>k. 1 \<le> k \<and> k \<le> length (takeWhile not_newline b) \<and> at_eol (drop k b)"
  then obtain k where k: "1 \<le> k" "k \<le> length (takeWhile not_newline b)" "at_eol (drop k b)"
    by blast
  then have "k = length (takeWhile not_newline b)" by (rule drop_to_eol)
  with k show "takeWhile not_newline b \<noteq> [] \<and> at_eol (dropWhile not_newline b)"
    by (auto simp: dropWhile_eq_drop)
next
  assume a: "takeWhile not_newline b \<noteq> [] \<and> at_eol (dropWhile not_newline b)"
  then have "1 \<le> length (takeWhile not_newline b)"
    by (cases "takeWhile not_newline b") simp_all
  with a show "\<exists>k. 1 \<le> k \<and> k \<le> length (takeWhile not_newline b) \<and> at_eol (drop k b)"
    by (intro exI [of _ "length (takeWhile not_newline b)"]) (simp add: dropWhile_eq_drop)
qed

lemma set_rmatch_Group:
  "set (rmatch ic (Group n a) (i, s, g)) =
     (\<lambda>(j, s', g'). (j, s', (n, take (j - i) s) # g')) ` set (rmatch ic a (i, s, g))"
  by simp

lemma rmatch_Seq_Lit_n:
  "length l = n \<Longrightarrow>
   rmatch False (Seq (Lit l) r) (i, s, g) =
     (if prefix l s then rmatch False r (i + n, drop n s, g) else [])"
  using rmatch_Seq_Lit [of l r i s g] by (simp del: rmatch.simps)

lemma rmatch_Seq_Lit_si:
  "rmatch False (Seq (Lit ''?si='') r) (i, s, g) =
     (if prefix ''?si='' s then rmatch False r (i + 4, drop 4 s, g) else [])"
  by (rule rmatch_Seq_Lit_n) simp

lemma query_opt_states:
  "st \<in> set (rmatch False (Opt (Group ''3'' (Seq (Lit ''?si='') (Many1Lazy not_newline)))) (i, q, g)) \<longleftrightarrow>
     st = (i, q, g) \<or>
     (prefix ''?si='' q \<and>
      (\<exists>k. 1 \<le> k \<and> k \<le> length (takeWhile not_newline (drop 4 q)) \<and>
           st = (i + 4 + k, drop k (drop 4 q), (''3'', take (4 + k) q) # g)))"
proof (cases "prefix ''?si='' q")
  case False
  then show ?thesis
    by (simp add: rmatch_Seq_Lit_si del: rmatch.simps(5) rmatch.simps(1))
next
  case True
  have "rmatch False (Seq (Lit ''?si='') (Many1Lazy not_newline)) (i, q, g) =
      rmatch False (Many1Lazy not_newline) (i + 4, drop 4 q, g)"
    using True by (simp only: rmatch_Seq_Lit_si if_True)
  then have "set (rmatch False (Seq (Lit ''?si='') (Many1Lazy not_newline)) (i, q, g)) =
      {(i + 4 + k, drop k (drop 4 q), g) | k. 1 \<le> k \<and> k \<le> length (takeWhile not_newline (drop 4 q))}"
    by (simp only: set_rmatch_Many1Lazy)
  then have "set (rmatch False (Group ''3'' (Seq (Lit ''?si='') (Many1Lazy not_newline))) (i, q, g)) =
      (\<lambda>(j, s', g'). (j, s', (''3'', take (j - i) q) # g')) `
        {(i + 4 + k, drop k (drop 4 q), g) | k. 1 \<le> k \<and> k \<le> length (takeWhile not_newline (drop 4 q))}"
    by (simp only: set_rmatch_Group)
  also have "\<dots> = {(i + 4 + k, drop k (drop 4 q), (''3'', take (4 + k) q) # g) | k.
      1 \<le> k \<and> k \<le> length (takeWhile not_newline (drop 4 q))}"
    by (auto simp: image_iff)
  finally have "set (rmatch False (Opt (Group ''3'' (Seq (Lit ''?si='') (Many1Lazy not_newline)))) (i, q, g)) =
      {(i + 4 + k, drop k (drop 4 q), (''3'', take (4 + k) q) # g) | k.
        1 \<le> k \<and> k \<le> length (takeWhile not_newline (drop 4 q))} \<union> {(i, q, g)}"
    by (simp del: rmatch.simps(5) rmatch.simps(11))
  then show ?thesis
    using True by auto
qed

lemma query_members:
  "m \<in> set (rmatch False query_re (i, q, g)) \<longleftrightarrow>
     (at_eol q \<and> m = (i, q, g)) \<or>
     (prefix ''?si='' q \<and>
      (\<exists>k. 1 \<le> k \<and> k \<le> length (takeWhile not_newline (drop 4 q)) \<and> at_eol (drop k (drop 4 q)) \<and>
           m = (i + 4 + k, drop k (drop 4 q), (''3'', take (4 + k) q) # g)))"
proof -
  have "m \<in> set (rmatch False query_re (i, q, g)) \<longleftrightarrow>
      (\<exists>st. st \<in> set (rmatch False (Opt (Group ''3'' (Seq (Lit ''?si='') (Many1Lazy not_newline)))) (i, q, g))
         \<and> m \<in> set (rmatch False Eol st))"
    unfolding query_re_def set_rmatch_Seq by blast
  also have "\<dots> \<longleftrightarrow>
      (\<exists>st. (st = (i, q, g) \<or>
         (prefix ''?si='' q \<and>
           (\<exists>k. 1 \<le> k \<and> k \<le> length (takeWhile not_newline (drop 4 q)) \<and>
             st = (i + 4 + k, drop k (drop 4 q), (''3'', take (4 + k) q) # g))))
         \<and> m \<in> set (rmatch False Eol st))"
    unfolding query_opt_states ..
  also have "\<dots> \<longleftrightarrow> (at_eol q \<and> m = (i, q, g)) \<or>
     (prefix ''?si='' q \<and>
      (\<exists>k. 1 \<le> k \<and> k \<le> length (takeWhile not_newline (drop 4 q)) \<and> at_eol (drop k (drop 4 q)) \<and>
           m = (i + 4 + k, drop k (drop 4 q), (''3'', take (4 + k) q) # g)))"
    by (auto simp: rmatch_Eol simp del: rmatch.simps(4))
  finally show ?thesis .
qed

lemma query_nonempty: "rmatch False query_re (i, q, g) \<noteq> [] \<longleftrightarrow> valid_query q"
proof -
  have "rmatch False query_re (i, q, g) \<noteq> [] \<longleftrightarrow> (\<exists>m. m \<in> set (rmatch False query_re (i, q, g)))"
    by (cases "rmatch False query_re (i, q, g)") auto
  also have "\<dots> \<longleftrightarrow> at_eol q \<or> (prefix ''?si='' q \<and>
      (\<exists>k. 1 \<le> k \<and> k \<le> length (takeWhile not_newline (drop 4 q)) \<and> at_eol (drop k (drop 4 q))))"
    unfolding query_members by blast
  also have "\<dots> \<longleftrightarrow> valid_query q"
    unfolding query_lazy_eol valid_query_def by blast
  finally show ?thesis .
qed

lemma query_group:
  "m \<in> set (rmatch False query_re (i, q, g)) \<Longrightarrow> n \<noteq> ''3'' \<Longrightarrow> group n m = map_of g n"
  unfolding query_members by (auto simp: group_def)

lemma url_re_parts:
  "url_re t n = Seq Bol (Seq scheme_re (Seq (Lit ''open.spotify.com'') (Seq intl_re (tail_re t n))))"
  by (simp add: url_re_def scheme_re_def intl_re_def tail_re_def query_re_def)

lemma nonempty_member: "xs \<noteq> [] \<longleftrightarrow> (\<exists>m. m \<in> set xs)"
  by (cases xs) auto

lemma member_nonempty: "m \<in> set xs \<Longrightarrow> xs \<noteq> []"
  by auto

lemma tail_members:
  "m \<in> set (rmatch False (tail_re t n) (i, r, g)) \<longleftrightarrow>
     prefix (''/'' @ t @ ''/'') r \<and> is_id (take 22 (drop (length (''/'' @ t @ ''/'')) r)) \<and>
     m \<in> set (rmatch False query_re
        (i + length (''/'' @ t @ ''/'') + 22, drop 22 (drop (length (''/'' @ t @ ''/'')) r),
         (n, take 22 (drop (length (''/'' @ t @ ''/'')) r)) # g))"
proof -
  define p where "p = ''/'' @ t @ ''/''"
  define x where "x = drop (length p) r"
  have step: "rmatch False (Seq (Group n (rep 22 (Cls is_alnum))) query_re) (j, x, g) =
      (if is_id (take 22 x) then rmatch False query_re (j + 22, drop 22 x, (n, take 22 x) # g) else [])"
    for j
  proof -
    have "rmatch False (Seq (Group n (rep 22 (Cls is_alnum))) query_re) (j, x, g) =
        concat (map (rmatch False query_re) (rmatch False (Group n (rep 22 (Cls is_alnum))) (j, x, g)))"
      by (simp only: rmatch.simps(5))
    also have "\<dots> = (if is_id (take 22 x) then rmatch False query_re (j + 22, drop 22 x, (n, take 22 x) # g) else [])"
      by (simp only: rmatch_id_group split: if_splits) simp
    finally show ?thesis .
  qed
  have "rmatch False (tail_re t n) (i, r, g) =
      (if prefix p r then rmatch False (Seq (Group n (rep 22 (Cls is_alnum))) query_re) (i + length p, x, g) else [])"
    unfolding tail_re_def p_def [symmetric] x_def by (rule rmatch_Seq_Lit)
  then show ?thesis
    unfolding step p_def [symmetric] x_def [symmetric] by (simp split: if_splits)
qed

lemma tail_sound:
  assumes "m \<in> set (rmatch False (tail_re t n) (i, r, g))" "n \<noteq> ''3''"
  shows "url_tail t r = group n m \<and> group n m \<noteq> None"
proof -
  define x where "x = drop (length (''/'' @ t @ ''/'')) r"
  from assms(1) have p: "prefix (''/'' @ t @ ''/'') r" and id: "is_id (take 22 x)"
    and q: "m \<in> set (rmatch False query_re
        (i + length (''/'' @ t @ ''/'') + 22, drop 22 x, (n, take 22 x) # g))"
    unfolding tail_members x_def by blast+
  from q have "rmatch False query_re
        (i + length (''/'' @ t @ ''/'') + 22, drop 22 x, (n, take 22 x) # g) \<noteq> []"
    by (rule member_nonempty)
  then have "valid_query (drop 22 x)"
    by (simp only: query_nonempty)
  with p id have "url_tail t r = Some (take 22 x)"
    by (simp add: url_tail_def x_def Let_def)
  moreover have "group n m = Some (take 22 x)"
    using query_group [OF q assms(2)] by simp
  ultimately show ?thesis by simp
qed

lemma tail_complete:
  assumes "url_tail t r \<noteq> None"
  shows "rmatch False (tail_re t n) (i, r, g) \<noteq> []"
proof -
  define x where "x = drop (length (''/'' @ t @ ''/'')) r"
  from assms have p: "prefix (''/'' @ t @ ''/'') r" and id: "is_id (take 22 x)"
    and v: "valid_query (drop 22 x)"
    unfolding url_tail_def x_def Let_def by (auto split: if_splits)
  from v have "rmatch False query_re
        (i + length (''/'' @ t @ ''/'') + 22, drop 22 x, (n, take 22 x) # g) \<noteq> []"
    by (simp only: query_nonempty)
  then obtain m where "m \<in> set (rmatch False query_re
        (i + length (''/'' @ t @ ''/'') + 22, drop 22 x, (n, take 22 x) # g))"
    by (auto simp only: nonempty_member)
  with p id have "m \<in> set (rmatch False (tail_re t n) (i, r, g))"
    unfolding tail_members x_def by blast
  then show ?thesis by (rule member_nonempty)
qed

lemma rmatch_Seq_Lit_intl:
  "rmatch False (Seq (Lit ''/intl-'') r) (i, s, g) =
     (if prefix ''/intl-'' s then rmatch False r (i + 6, drop 6 s, g) else [])"
  by (rule rmatch_Seq_Lit_n) simp

lemma intl_states:
  "st \<in> set (rmatch False intl_re (i, r, g)) \<longleftrightarrow>
     st = (i, r, g) \<or>
     (prefix ''/intl-'' r \<and>
      (\<exists>k. 1 \<le> k \<and> k \<le> length (takeWhile is_word (drop 6 r)) \<and>
           st = (i + 6 + k, drop k (drop 6 r), g)))"
proof (cases "prefix ''/intl-'' r")
  case False
  then show ?thesis
    unfolding intl_re_def by (simp add: rmatch_Seq_Lit_intl del: rmatch.simps(5) rmatch.simps(1))
next
  case True
  have "rmatch False (Seq (Lit ''/intl-'') (Many1 is_word)) (i, r, g) =
      rmatch False (Many1 is_word) (i + 6, drop 6 r, g)"
    using True by (simp only: rmatch_Seq_Lit_intl if_True)
  then have "set (rmatch False (Seq (Lit ''/intl-'') (Many1 is_word)) (i, r, g)) =
      {(i + 6 + k, drop k (drop 6 r), g) | k. 1 \<le> k \<and> k \<le> length (takeWhile is_word (drop 6 r))}"
    by (simp only: set_rmatch_Many1)
  then have "set (rmatch False intl_re (i, r, g)) =
      {(i + 6 + k, drop k (drop 6 r), g) | k. 1 \<le> k \<and> k \<le> length (takeWhile is_word (drop 6 r))}
      \<union> {(i, r, g)}"
    unfolding intl_re_def by (simp del: rmatch.simps(5) rmatch.simps(8))
  then show ?thesis
    using True by auto
qed

lemma slash_not_word: "\<not> is_word CHR ''/''"
  by (simp add: is_word_def)

lemma prefix_slash_hd: "prefix (''/'' @ t @ ''/'') u \<Longrightarrow> u \<noteq> [] \<and> hd u = CHR ''/''"
  by (cases u) simp_all

lemma intl_then_slash:
  assumes "1 \<le> k" "k \<le> length (takeWhile is_word b)" "prefix (''/'' @ t @ ''/'') (drop k b)"
  shows "k = length (takeWhile is_word b)"
proof -
  from assms(3) have ne: "drop k b \<noteq> []" and h: "hd (drop k b) = CHR ''/''"
    using prefix_slash_hd by blast+
  from ne have k: "k < length b" by simp
  then have "b ! k = CHR ''/''"
    using h by (simp add: hd_drop_conv_nth)
  then have "\<not> is_word (b ! k)" by (simp add: slash_not_word)
  with k have "length (takeWhile is_word b) \<le> k" by (rule takeWhile_stops)
  with assms(2) show ?thesis by simp
qed

lemma intl_excludes_type:
  assumes "prefix ''/intl-'' r" "prefix (''/'' @ t @ ''/'') r"
  shows "prefix ''i'' t"
proof (cases r)
  case Nil
  with assms show ?thesis by simp
next
  case (Cons a u)
  with assms show ?thesis
    by (cases t; cases u) simp_all
qed

lemma intl_tail_sound:
  assumes "m \<in> set (rmatch False (Seq intl_re (tail_re t n)) (i, r, g))" "n \<noteq> ''3''"
    "\<not> prefix ''i'' t"
  shows "url_tail t (strip_intl r) = group n m \<and> group n m \<noteq> None"
proof -
  from assms(1) obtain st where st: "st \<in> set (rmatch False intl_re (i, r, g))"
    and m: "m \<in> set (rmatch False (tail_re t n) st)"
    unfolding set_rmatch_Seq by blast
  from st consider (skip) "st = (i, r, g)"
    | (seg) k where "prefix ''/intl-'' r" "1 \<le> k" "k \<le> length (takeWhile is_word (drop 6 r))"
        "st = (i + 6 + k, drop k (drop 6 r), g)"
    unfolding intl_states by blast
  then show ?thesis
  proof cases
    case skip
    with m have m': "m \<in> set (rmatch False (tail_re t n) (i, r, g))"
      by (simp only:)
    then have "prefix (''/'' @ t @ ''/'') r"
      unfolding tail_members by blast
    with assms(3) have "\<not> prefix ''/intl-'' r"
      using intl_excludes_type by blast
    then have "strip_intl r = r" by (simp add: strip_intl_def)
    with m' assms(2) show ?thesis
      using tail_sound by simp
  next
    case seg
    with m have m': "m \<in> set (rmatch False (tail_re t n) (i + 6 + k, drop k (drop 6 r), g))"
      by (simp only:)
    then have "prefix (''/'' @ t @ ''/'') (drop k (drop 6 r))"
      unfolding tail_members by blast
    with seg have k: "k = length (takeWhile is_word (drop 6 r))"
      using intl_then_slash by blast
    with seg have "takeWhile is_word (drop 6 r) \<noteq> []" by auto
    with seg k have "strip_intl r = drop k (drop 6 r)"
      by (simp add: strip_intl_def dropWhile_eq_drop)
    with m' assms(2) show ?thesis
      using tail_sound by simp
  qed
qed

lemma intl_tail_complete:
  assumes "url_tail t (strip_intl r) \<noteq> None"
  shows "rmatch False (Seq intl_re (tail_re t n)) (i, r, g) \<noteq> []"
proof (cases "prefix ''/intl-'' r \<and> takeWhile is_word (drop 6 r) \<noteq> []")
  case False
  then have "strip_intl r = r" by (auto simp: strip_intl_def)
  with assms have "rmatch False (tail_re t n) (i, r, g) \<noteq> []"
    using tail_complete by simp
  then obtain m where "m \<in> set (rmatch False (tail_re t n) (i, r, g))"
    by (auto simp only: nonempty_member)
  moreover have "(i, r, g) \<in> set (rmatch False intl_re (i, r, g))"
    unfolding intl_states by simp
  ultimately have "m \<in> set (rmatch False (Seq intl_re (tail_re t n)) (i, r, g))"
    unfolding set_rmatch_Seq by blast
  then show ?thesis by (rule member_nonempty)
next
  case True
  define k where "k = length (takeWhile is_word (drop 6 r))"
  from True have k: "1 \<le> k" by (cases "takeWhile is_word (drop 6 r)") (simp_all add: k_def)
  from True have "strip_intl r = drop k (drop 6 r)"
    by (simp add: strip_intl_def dropWhile_eq_drop k_def)
  with assms have "rmatch False (tail_re t n) (i + 6 + k, drop k (drop 6 r), g) \<noteq> []"
    using tail_complete by simp
  then obtain m where "m \<in> set (rmatch False (tail_re t n) (i + 6 + k, drop k (drop 6 r), g))"
    by (auto simp only: nonempty_member)
  moreover have "(i + 6 + k, drop k (drop 6 r), g) \<in> set (rmatch False intl_re (i, r, g))"
    unfolding intl_states using True k by (auto simp: k_def)
  ultimately have "m \<in> set (rmatch False (Seq intl_re (tail_re t n)) (i, r, g))"
    unfolding set_rmatch_Seq by blast
  then show ?thesis by (rule member_nonempty)
qed

lemma rmatch_Seq_Lit_http:
  "rmatch False (Seq (Lit ''http'') r) (i, s, g) =
     (if prefix ''http'' s then rmatch False r (i + 4, drop 4 s, g) else [])"
  by (rule rmatch_Seq_Lit_n) simp

lemma rmatch_Lit_n:
  "length l = n \<Longrightarrow>
   rmatch False (Lit l) (i, s, g) = (if prefix l s then [(i + n, drop n s, g)] else [])"
  using rmatch_Lit [of l i s g] by (simp del: rmatch.simps)

lemma prefix_append_drop_n:
  "length a = n \<Longrightarrow> prefix (a @ b) s \<longleftrightarrow> prefix a s \<and> prefix b (drop n s)"
  using prefix_append_drop [of a b s] by simp

lemma rmatch_Lit_s:
  "rmatch False (Lit ''s'') (i, s, g) = (if prefix ''s'' s then [(i + 1, drop 1 s, g)] else [])"
  by (rule rmatch_Lit_n) simp

lemma rmatch_Lit_colon:
  "rmatch False (Lit ''://'') (i, s, g) = (if prefix ''://'' s then [(i + 3, drop 3 s, g)] else [])"
  by (rule rmatch_Lit_n) simp

lemma prefix_https:
  "prefix ''https://'' s \<longleftrightarrow> prefix ''http'' s \<and> prefix ''s'' (drop 4 s) \<and> prefix ''://'' (drop 5 s)"
proof -
  have "prefix (''http'' @ ''s://'') s \<longleftrightarrow> prefix ''http'' s \<and> prefix ''s://'' (drop 4 s)"
    by (rule prefix_append_drop_n) simp
  moreover have "prefix (''s'' @ ''://'') (drop 4 s) \<longleftrightarrow>
      prefix ''s'' (drop 4 s) \<and> prefix ''://'' (drop 1 (drop 4 s))"
    by (rule prefix_append_drop_n) simp
  ultimately show ?thesis by simp
qed

lemma prefix_http:
  "prefix ''http://'' s \<longleftrightarrow> prefix ''http'' s \<and> prefix ''://'' (drop 4 s)"
proof -
  have "prefix (''http'' @ ''://'') s \<longleftrightarrow> prefix ''http'' s \<and> prefix ''://'' (drop 4 s)"
    by (rule prefix_append_drop_n) simp
  then show ?thesis by simp
qed

lemma not_both_schemes: "prefix ''s'' u \<Longrightarrow> prefix ''://'' u \<Longrightarrow> False"
  by (cases u) simp_all

lemma scheme_opt:
  "rmatch False (Seq (Opt (Lit ''s'')) (Lit ''://'')) (i, u, g) =
     (if prefix ''s'' u \<and> prefix ''://'' (drop 1 u) then [(i + 1 + 3, drop 3 (drop 1 u), g)] else []) @
     (if prefix ''://'' u then [(i + 3, drop 3 u, g)] else [])"
  by (simp add: rmatch_Lit_s rmatch_Lit_colon del: rmatch.simps(1))

lemma scheme_inner:
  "rmatch False (Seq (Lit ''http'') (Seq (Opt (Lit ''s'')) (Lit ''://''))) (0, s, []) =
     (if prefix ''https://'' s then [(8, drop 8 s, [])]
      else if prefix ''http://'' s then [(7, drop 7 s, [])]
      else [])"
proof (cases "prefix ''http'' s")
  case False
  then show ?thesis
    by (simp only: rmatch_Seq_Lit_http prefix_https prefix_http) simp
next
  case True
  show ?thesis
  proof (cases "prefix ''s'' (drop 4 s)")
    case s: True
    then have "\<not> prefix ''://'' (drop 4 s)"
      using not_both_schemes by blast
    with True s show ?thesis
      by (simp only: rmatch_Seq_Lit_http scheme_opt prefix_https prefix_http) simp
  next
    case False
    with True show ?thesis
      by (simp only: rmatch_Seq_Lit_http scheme_opt prefix_https prefix_http) simp
  qed
qed

lemma scheme_states:
  "rmatch False scheme_re (0, s, []) =
     (if prefix ''https://'' s then [(8, drop 8 s, [(''1'', take 8 s)])]
      else if prefix ''http://'' s then [(7, drop 7 s, [(''1'', take 7 s)])]
      else []) @ [(0, s, [])]"
  unfolding scheme_re_def
  by (simp only: rmatch.simps(7) rmatch.simps(11) scheme_inner) simp

lemma rmatch_Seq_Lit_host:
  "rmatch False (Seq (Lit ''open.spotify.com'') r) (i, s, g) =
     (if prefix ''open.spotify.com'' s then rmatch False r (i + 16, drop 16 s, g) else [])"
  by (rule rmatch_Seq_Lit_n) simp

lemma host_not_scheme:
  "prefix ''open.spotify.com'' s \<Longrightarrow> \<not> prefix ''https://'' s \<and> \<not> prefix ''http://'' s"
  by (cases s) auto

lemma host_members:
  "m \<in> set (rmatch False (host_re t n) (i, u, g)) \<longleftrightarrow>
     prefix ''open.spotify.com'' u \<and>
     m \<in> set (rmatch False (Seq intl_re (tail_re t n)) (i + 16, drop 16 u, g))"
  unfolding host_re_def by (simp only: rmatch_Seq_Lit_host split: if_splits) simp

lemma url_body_members:
  "m \<in> set (rmatch False (Seq scheme_re (host_re t n)) (0, s, [])) \<Longrightarrow>
     \<exists>i g. prefix ''open.spotify.com'' (strip_scheme s) \<and>
       m \<in> set (rmatch False (Seq intl_re (tail_re t n)) (i, drop 16 (strip_scheme s), g))"
proof -
  assume "m \<in> set (rmatch False (Seq scheme_re (host_re t n)) (0, s, []))"
  then obtain st where st: "st \<in> set (rmatch False scheme_re (0, s, []))"
    and m: "m \<in> set (rmatch False (host_re t n) st)"
    unfolding set_rmatch_Seq by blast
  from st consider (plain) "st = (0, s, [])"
    | (https) "prefix ''https://'' s" "st = (8, drop 8 s, [(''1'', take 8 s)])"
    | (http) "\<not> prefix ''https://'' s" "prefix ''http://'' s" "st = (7, drop 7 s, [(''1'', take 7 s)])"
    unfolding scheme_states by (auto split: if_splits)
  then show ?thesis
  proof cases
    case plain
    with m have "m \<in> set (rmatch False (host_re t n) (0, s, []))"
      by (simp only:)
    then have h: "prefix ''open.spotify.com'' s"
      and m': "m \<in> set (rmatch False (Seq intl_re (tail_re t n)) (0 + 16, drop 16 s, []))"
      unfolding host_members by blast+
    from h have "strip_scheme s = s"
      using host_not_scheme by (simp add: strip_scheme_def)
    with h m' show ?thesis by auto
  next
    case https
    with m have "m \<in> set (rmatch False (host_re t n) (8, drop 8 s, [(''1'', take 8 s)]))"
      by (simp only:)
    then have h: "prefix ''open.spotify.com'' (drop 8 s)"
      and m': "m \<in> set (rmatch False (Seq intl_re (tail_re t n)) (8 + 16, drop 16 (drop 8 s), [(''1'', take 8 s)]))"
      unfolding host_members by blast+
    from https have "strip_scheme s = drop 8 s"
      by (simp add: strip_scheme_def)
    with h m' show ?thesis by auto
  next
    case http
    with m have "m \<in> set (rmatch False (host_re t n) (7, drop 7 s, [(''1'', take 7 s)]))"
      by (simp only:)
    then have h: "prefix ''open.spotify.com'' (drop 7 s)"
      and m': "m \<in> set (rmatch False (Seq intl_re (tail_re t n)) (7 + 16, drop 16 (drop 7 s), [(''1'', take 7 s)]))"
      unfolding host_members by blast+
    from http have "strip_scheme s = drop 7 s"
      by (simp add: strip_scheme_def)
    with h m' show ?thesis by auto
  qed
qed

lemma url_sound:
  assumes "m \<in> set (rmatch False (Seq scheme_re (host_re t n)) (0, s, []))" "n \<noteq> ''3''"
    "\<not> prefix ''i'' t"
  shows "url_id t s = group n m \<and> group n m \<noteq> None"
proof -
  from url_body_members [OF assms(1)] obtain i g
    where h: "prefix ''open.spotify.com'' (strip_scheme s)"
      and m: "m \<in> set (rmatch False (Seq intl_re (tail_re t n)) (i, drop 16 (strip_scheme s), g))"
    by blast
  from h have "url_id t s = url_tail t (strip_intl (drop 16 (strip_scheme s)))"
    by (simp add: url_id_def url_host_def)
  with intl_tail_sound [OF m assms(2,3)] show ?thesis by simp
qed

lemma url_complete:
  assumes "url_id t s \<noteq> None"
  shows "rmatch False (Seq scheme_re (host_re t n)) (0, s, []) \<noteq> []"
proof -
  from assms have h: "prefix ''open.spotify.com'' (strip_scheme s)"
    and tl: "url_tail t (strip_intl (drop 16 (strip_scheme s))) \<noteq> None"
    by (auto simp: url_id_def url_host_def Let_def split: if_splits)
  define st :: mstate where "st =
     (if prefix ''https://'' s then (8, drop 8 s, [(''1'', take 8 s)])
      else if prefix ''http://'' s then (7, drop 7 s, [(''1'', take 7 s)])
      else (0, s, []))"
  have st_in: "st \<in> set (rmatch False scheme_re (0, s, []))"
    unfolding scheme_states st_def by simp
  have "\<exists>i g. st = (i, strip_scheme s, g)"
    unfolding st_def strip_scheme_def by simp
  then obtain i g where st_eq: "st = (i, strip_scheme s, g)"
    by blast
  from tl have "rmatch False (Seq intl_re (tail_re t n)) (i + 16, drop 16 (strip_scheme s), g) \<noteq> []"
    by (rule intl_tail_complete)
  then obtain m where "m \<in> set (rmatch False (Seq intl_re (tail_re t n)) (i + 16, drop 16 (strip_scheme s), g))"
    by (auto simp only: nonempty_member)
  with h have "m \<in> set (rmatch False (host_re t n) st)"
    unfolding st_eq host_members by blast
  with st_in have "m \<in> set (rmatch False (Seq scheme_re (host_re t n)) (0, s, []))"
    unfolding set_rmatch_Seq by blast
  then show ?thesis by (rule member_nonempty)
qed

lemma url_re_body: "url_re t n = Seq Bol (Seq scheme_re (host_re t n))"
  by (simp add: url_re_parts host_re_def)

lemma url_search:
  assumes "n \<noteq> ''3''" "\<not> prefix ''i'' t"
  shows "(case re_search False (url_re t n) s of Some m \<Rightarrow> group n m | None \<Rightarrow> None) = url_id t s"
    and "(re_search False (url_re t n) s = None) = (url_id t s = None)"
proof -
  let ?R = "rmatch False (Seq scheme_re (host_re t n)) (0, s, [])"
  have both: "(case re_search False (url_re t n) s of Some m \<Rightarrow> group n m | None \<Rightarrow> None) = url_id t s
      \<and> ((re_search False (url_re t n) s = None) = (url_id t s = None))"
  proof (cases ?R)
    case Nil
    then have "url_id t s = None"
      using url_complete [of t s n] by blast
    then show ?thesis
      unfolding url_re_body re_search_Bol Nil by simp
  next
    case (Cons m ms)
    then have "m \<in> set ?R" by simp
    from url_sound [OF this assms] show ?thesis
      unfolding url_re_body re_search_Bol Cons by auto
  qed
  from both show "(case re_search False (url_re t n) s of Some m \<Rightarrow> group n m | None \<Rightarrow> None) = url_id t s"
    by blast
  from both show "(re_search False (url_re t n) s = None) = (url_id t s = None)"
    by blast
qed

lemma id_str_slot:
  assumes "n \<noteq> ''3''" "\<not> prefix ''i'' t"
  shows "id_str n (re_search False (uri_re t n) s) (re_search False (url_re t n) s) = slot t s"
proof (cases "re_search False (uri_re t n) s")
  case None
  then have u: "uri_id t s = None"
    using uri_search(2) [where t = t and n = n and s = s] by simp
  show ?thesis
  proof (cases "re_search False (url_re t n) s")
    case n2: None
    then have "url_id t s = None"
      using url_search(2) [OF assms, where s = s] by simp
    with None n2 u show ?thesis
      by (simp add: id_str_def slot_def)
  next
    case (Some m)
    then have "group n m = url_id t s"
      using url_search(1) [OF assms, where s = s] by simp
    with None Some u show ?thesis
      by (simp add: id_str_def slot_def)
  qed
next
  case (Some m)
  then have g: "group n m = uri_id t s"
    using uri_search(1) [where t = t and n = n and s = s] by simp
  from Some have "uri_id t s \<noteq> None"
    using uri_search(2) [where t = t and n = n and s = s] by simp
  with Some g show ?thesis
    by (auto simp: id_str_def slot_def)
qed

lemma regex_input_for_urls_slots:
  "regex_input_for_urls s =
     (slot ''track'' s, slot ''album'' s, slot ''playlist'' s, slot ''episode'' s,
      slot ''show'' s, slot ''artist'' s)"
  unfolding regex_input_for_urls_def Let_def
  by (simp add: id_str_slot)

section \<open>Properties of the identifier extractor\<close>

lemma drop_known_prefix [simp]: "length p = n \<Longrightarrow> drop n (p @ y) = y"
  by simp

lemma uri_id_uri_form:
  "uri_id (type_name t2) (uri_form t @ y) =
     (if t2 = t \<and> is_id (take 22 y) \<and> at_eol (drop 22 y) then Some (take 22 y) else None)"
  by (cases t; cases t2) (simp_all add: uri_id_def uri_form_def)

lemma url_host_uri_form: "url_host (uri_form t @ y) = None"
  by (simp add: url_host_def strip_scheme_def uri_form_def)

lemma slot_uri_form:
  "slot (type_name t2) (uri_form t @ y) =
     (if t2 = t \<and> is_id (take 22 y) \<and> at_eol (drop 22 y) then Some (take 22 y) else None)"
  by (simp add: slot_def uri_id_uri_form url_id_def url_host_uri_form)

lemma regex_slots_typed:
  "regex_input_for_urls s =
     (slot (type_name Track) s, slot (type_name Album) s, slot (type_name Playlist) s,
      slot (type_name Episode) s, slot (type_name Show) s, slot (type_name Artist) s)"
  by (simp add: regex_input_for_urls_slots)

lemma uri_form_parse:
  "regex_input_for_urls (uri_form t @ y) =
     (if is_id (take 22 y) \<and> at_eol (drop 22 y) then only t (take 22 y) else no_ids)"
  unfolding regex_slots_typed slot_uri_form
  by (cases t) (simp_all add: no_ids_def)

lemma uri_id_url_form:
  "is_scheme sch \<Longrightarrow> uri_id t2 (url_form sch seg t @ y) = None"
  by (auto simp: is_scheme_def uri_id_def url_form_def)

lemma url_host_url_form:
  "is_scheme sch \<Longrightarrow>
   url_host (url_form sch seg t @ y) = Some (seg @ ''/'' @ type_name t @ ''/'' @ y)"
  by (auto simp: is_scheme_def url_host_def strip_scheme_def url_form_def)

lemma strip_intl_none: "strip_intl (''/'' @ type_name t @ ''/'' @ y) = ''/'' @ type_name t @ ''/'' @ y"
  by (cases t) (simp_all add: strip_intl_def)

lemma strip_intl_seg:
  assumes "is_intl seg"
  shows "strip_intl (seg @ ''/'' @ type_name t @ ''/'' @ y) = ''/'' @ type_name t @ ''/'' @ y"
proof (cases "seg = []")
  case True
  then show ?thesis using strip_intl_none [of t y] by simp
next
  case False
  with assms have p: "prefix ''/intl-'' seg" and ne: "drop 6 seg \<noteq> []"
    and w: "list_all is_word (drop 6 seg)"
    by (simp_all add: is_intl_def)
  define w where "w = drop 6 seg"
  from p have seg: "seg = ''/intl-'' @ w"
    by (auto simp: prefix_def w_def)
  let ?rest = "''/'' @ type_name t @ ''/'' @ y"
  have d: "drop 6 (seg @ ?rest) = w @ ?rest"
    by (simp add: seg)
  have tw: "takeWhile is_word (w @ ?rest) = w"
    using w by (simp add: w_def [symmetric] list_all_iff is_word_def)
  have dw: "dropWhile is_word (w @ ?rest) = ?rest"
    using w by (simp add: w_def [symmetric] list_all_iff is_word_def)
  have "prefix ''/intl-'' (seg @ ?rest)"
    by (simp add: seg)
  then show ?thesis
    using ne unfolding strip_intl_def d tw dw w_def [symmetric] by simp
qed

lemma url_tail_type:
  "url_tail (type_name t2) (''/'' @ type_name t @ ''/'' @ y) =
     (if t2 = t \<and> is_id (take 22 y) \<and> valid_query (drop 22 y) then Some (take 22 y) else None)"
  by (cases t; cases t2) (simp_all add: url_tail_def)

lemma slot_url_form:
  assumes "is_scheme sch" "is_intl seg"
  shows "slot (type_name t2) (url_form sch seg t @ y) =
     (if t2 = t \<and> is_id (take 22 y) \<and> valid_query (drop 22 y) then Some (take 22 y) else None)"
proof -
  have "url_id (type_name t2) (url_form sch seg t @ y) =
      url_tail (type_name t2) (strip_intl (seg @ ''/'' @ type_name t @ ''/'' @ y))"
    unfolding url_id_def url_host_url_form [OF assms(1)] by (simp only: option.case)
  also have "\<dots> = url_tail (type_name t2) (''/'' @ type_name t @ ''/'' @ y)"
    by (simp only: strip_intl_seg [OF assms(2)])
  finally have "url_id (type_name t2) (url_form sch seg t @ y) =
      (if t2 = t \<and> is_id (take 22 y) \<and> valid_query (drop 22 y) then Some (take 22 y) else None)"
    by (simp only: url_tail_type)
  then show ?thesis
    unfolding slot_def uri_id_url_form [OF assms(1)] by (simp only: option.case)
qed

lemma url_form_parse:
  assumes "is_scheme sch" "is_intl seg"
  shows "regex_input_for_urls (url_form sch seg t @ y) =
     (if is_id (take 22 y) \<and> valid_query (drop 22 y) then only t (take 22 y) else no_ids)"
  unfolding regex_slots_typed slot_url_form [OF assms]
  by (cases t) (simp_all add: no_ids_def)

lemma takeWhile_until: "c \<notin> set t \<Longrightarrow> takeWhile (\<lambda>x. x \<noteq> c) (t @ c # rest) = t"
  by (induction t) auto

lemma uri_shape:
  assumes "uri_id t s \<noteq> None" "CHR '':'' \<notin> set t"
  shows "shape s = Some t"
proof -
  from assms(1) have "prefix (''spotify:'' @ t @ '':'') s"
    by (auto simp: uri_id_def Let_def split: if_splits)
  then obtain rest where s: "s = ''spotify:'' @ t @ CHR '':'' # rest"
    by (auto simp: prefix_def)
  have "takeWhile (\<lambda>c. c \<noteq> CHR '':'') (t @ CHR '':'' # rest) = t"
    using assms(2) by (rule takeWhile_until)
  then show ?thesis
    by (simp add: shape_def s)
qed

lemma url_host_not_uri: "url_host s \<noteq> None \<Longrightarrow> \<not> prefix ''spotify:'' s"
  by (cases s) (auto simp: url_host_def strip_scheme_def Let_def split: if_splits)

lemma url_shape:
  assumes "url_id t s \<noteq> None" "CHR ''/'' \<notin> set t"
  shows "shape s = Some t"
proof -
  from assms(1) obtain r where r: "url_host s = Some r" and tl: "url_tail t (strip_intl r) \<noteq> None"
    by (auto simp: url_id_def split: option.splits)
  from tl have "prefix (''/'' @ t @ ''/'') (strip_intl r)"
    by (auto simp: url_tail_def Let_def split: if_splits)
  then obtain rest where si: "strip_intl r = CHR ''/'' # t @ CHR ''/'' # rest"
    by (auto simp: prefix_def)
  have "takeWhile (\<lambda>c. c \<noteq> CHR ''/'') (t @ CHR ''/'' # rest) = t"
    using assms(2) by (rule takeWhile_until)
  moreover have "\<not> prefix ''spotify:'' s"
    using r url_host_not_uri [of s] by simp
  ultimately show ?thesis
    by (simp add: shape_def r si)
qed

lemma slot_shape:
  assumes "slot t s \<noteq> None" "CHR '':'' \<notin> set t" "CHR ''/'' \<notin> set t"
  shows "shape s = Some t"
proof (cases "uri_id t s")
  case None
  with assms(1) have "url_id t s \<noteq> None" by (simp add: slot_def)
  then show ?thesis using assms(3) by (rule url_shape)
next
  case (Some x)
  then have "uri_id t s \<noteq> None" by simp
  then show ?thesis using assms(2) by (rule uri_shape)
qed

lemma slot_type_shape: "slot (type_name t) s \<noteq> None \<Longrightarrow> shape s = Some (type_name t)"
  by (rule slot_shape; cases t; simp)

text \<open>
  Claim C2. For every input string the result of \<open>regex_input_for_urls\<close> has at most
  one slot that is not \<open>None\<close>.
\<close>

theorem at_most_one_slot: "populated (regex_input_for_urls s) \<le> 1"
proof -
  have other: "slot (type_name t2) s = None" if "slot (type_name t) s \<noteq> None" "t2 \<noteq> t" for t t2
  proof (rule ccontr)
    assume "slot (type_name t2) s \<noteq> None"
    then have "shape s = Some (type_name t2)" by (rule slot_type_shape)
    moreover from that(1) have "shape s = Some (type_name t)" by (rule slot_type_shape)
    ultimately have "type_name t2 = type_name t" by simp
    with that(2) show False by (cases t; cases t2) simp_all
  qed
  define v where "v t = slot (type_name t) s" for t
  have result: "regex_input_for_urls s = (v Track, v Album, v Playlist, v Episode, v Show, v Artist)"
    unfolding v_def by (rule regex_slots_typed)
  show ?thesis
  proof (cases "\<exists>t. v t \<noteq> None")
    case False
    then have "v t = None" for t by blast
    then show ?thesis
      unfolding result by simp
  next
    case True
    then obtain t where t: "v t \<noteq> None" by blast
    have rest: "v t2 = None" if "t2 \<noteq> t" for t2
      using other [of t t2] t that unfolding v_def by blast
    show ?thesis
      unfolding result by (cases t) (simp_all add: rest)
  qed
qed

lemma is_id_exact: "is_id x \<Longrightarrow> take 22 x = x \<and> drop 22 x = []"
  by (simp add: is_id_def)

lemma is_id_append: "is_id x \<Longrightarrow> take 22 (x @ y) = x \<and> drop 22 (x @ y) = y"
  by (simp add: is_id_def)

lemma valid_query_si:
  assumes "body \<noteq> []" "CHR ''\<newline>'' \<notin> set body"
  shows "valid_query (''?si='' @ body)"
proof -
  from assms(2) have "\<forall>c \<in> set body. not_newline c"
    by (auto simp: not_newline_def)
  then have tw: "takeWhile not_newline body = body" and dw: "dropWhile not_newline body = []"
    by (simp_all add: takeWhile_eq_all_conv)
  show ?thesis
    unfolding valid_query_def by (simp add: tw dw at_eol_def assms(1))
qed

lemma question_not_alnum: "\<not> is_alnum CHR ''?''"
  by (simp add: is_alnum_def)

lemma slot_any_scheme:
  assumes "is_scheme sch"
  shows "slot tn (sch @ ''open.spotify.com'' @ rest) = url_tail tn (strip_intl rest)"
proof -
  have "uri_id tn (sch @ ''open.spotify.com'' @ rest) = None"
    using assms by (auto simp: is_scheme_def uri_id_def)
  moreover have "url_host (sch @ ''open.spotify.com'' @ rest) = Some rest"
    using assms by (auto simp: is_scheme_def url_host_def strip_scheme_def)
  ultimately show ?thesis
    by (simp add: slot_def url_id_def)
qed

lemma regex_any_scheme:
  assumes "is_scheme sch"
  shows "regex_input_for_urls (sch @ ''open.spotify.com'' @ rest) =
     (url_tail ''track'' (strip_intl rest), url_tail ''album'' (strip_intl rest),
      url_tail ''playlist'' (strip_intl rest), url_tail ''episode'' (strip_intl rest),
      url_tail ''show'' (strip_intl rest), url_tail ''artist'' (strip_intl rest))"
  unfolding regex_input_for_urls_slots slot_any_scheme [OF assms] ..

text \<open>
  Claim C10. For every resource type and every 22-character alphanumeric id, the URL
  with the scheme \<open>http://\<close> and the URL with no scheme parse to the slot of the type
  and the id, as the URL with \<open>https://\<close> does; more generally, whatever follows the
  host, the three spellings of the scheme give the same result.
\<close>

theorem scheme_is_optional:
  assumes "is_id x"
  shows "regex_input_for_urls (''http://open.spotify.com/'' @ type_name t @ ''/'' @ x) = only t x \<and>
         regex_input_for_urls (''open.spotify.com/'' @ type_name t @ ''/'' @ x) = only t x \<and>
         regex_input_for_urls (''https://open.spotify.com/'' @ type_name t @ ''/'' @ x) = only t x \<and>
         (\<forall>rest. regex_input_for_urls (''http://open.spotify.com'' @ rest) =
                   regex_input_for_urls (''https://open.spotify.com'' @ rest) \<and>
                 regex_input_for_urls (''open.spotify.com'' @ rest) =
                   regex_input_for_urls (''https://open.spotify.com'' @ rest))"
proof -
  have parse: "regex_input_for_urls (url_form sch [] t @ x) = only t x" if "is_scheme sch" for sch
  proof -
    have "is_intl []" by (simp add: is_intl_def)
    from url_form_parse [OF that this, of t x] show ?thesis
      using is_id_exact [OF assms] assms by (simp add: valid_query_def at_eol_def)
  qed
  have "regex_input_for_urls (url_form ''http://'' [] t @ x) = only t x"
    by (rule parse) (simp add: is_scheme_def)
  then have a: "regex_input_for_urls (''http://open.spotify.com/'' @ type_name t @ ''/'' @ x) = only t x"
    by (simp add: url_form_def)
  have "regex_input_for_urls (url_form [] [] t @ x) = only t x"
    by (rule parse) (simp add: is_scheme_def)
  then have b: "regex_input_for_urls (''open.spotify.com/'' @ type_name t @ ''/'' @ x) = only t x"
    by (simp add: url_form_def)
  have "regex_input_for_urls (url_form ''https://'' [] t @ x) = only t x"
    by (rule parse) (simp add: is_scheme_def)
  then have c: "regex_input_for_urls (''https://open.spotify.com/'' @ type_name t @ ''/'' @ x) = only t x"
    by (simp add: url_form_def)
  have d: "regex_input_for_urls (''http://open.spotify.com'' @ rest) =
        regex_input_for_urls (''https://open.spotify.com'' @ rest) \<and>
      regex_input_for_urls (''open.spotify.com'' @ rest) =
        regex_input_for_urls (''https://open.spotify.com'' @ rest)" for rest
  proof -
    have s1: "is_scheme ''http://''" and s2: "is_scheme ''https://''" and s3: "is_scheme []"
      by (simp_all add: is_scheme_def)
    from regex_any_scheme [OF s1, of rest] regex_any_scheme [OF s2, of rest]
      regex_any_scheme [OF s3, of rest]
    show ?thesis by simp
  qed
  from a b c d show ?thesis by blast
qed

theorem scheme_is_optional_witness:
  "is_id ''4uLU6hMCjMI75M1A2tKUQC'' \<and>
   regex_input_for_urls ''http://open.spotify.com/album/4uLU6hMCjMI75M1A2tKUQC''
     = (None, Some ''4uLU6hMCjMI75M1A2tKUQC'', None, None, None, None) \<and>
   regex_input_for_urls ''open.spotify.com/album/4uLU6hMCjMI75M1A2tKUQC''
     = (None, Some ''4uLU6hMCjMI75M1A2tKUQC'', None, None, None, None)"
proof -
  have h: "is_id ''4uLU6hMCjMI75M1A2tKUQC''"
    by (simp add: is_id_def is_alnum_def)
  from scheme_is_optional [OF h, of Album] h show ?thesis
    by simp
qed

lemma valid_query_si_newline:
  assumes "body \<noteq> []" "CHR ''\<newline>'' \<notin> set body"
  shows "valid_query (''?si='' @ body @ [CHR ''\<newline>''])"
proof -
  from assms(2) have all: "\<forall>c \<in> set body. not_newline c"
    by (auto simp: not_newline_def)
  have stop: "\<not> not_newline CHR ''\<newline>''"
    by (simp add: not_newline_def)
  from all stop have tw: "takeWhile not_newline (body @ [CHR ''\<newline>'']) = body"
    by (simp add: takeWhile_append2)
  from all stop have dw: "dropWhile not_newline (body @ [CHR ''\<newline>'']) = [CHR ''\<newline>'']"
    by (simp add: dropWhile_append2)
  show ?thesis
    unfolding valid_query_def by (simp add: tw dw at_eol_def assms(1))
qed

lemma valid_query_forms:
  "valid_query q \<longleftrightarrow>
     q = [] \<or> q = [CHR ''\<newline>''] \<or>
     (\<exists>body. body \<noteq> [] \<and> CHR ''\<newline>'' \<notin> set body \<and>
        (q = ''?si='' @ body \<or> q = ''?si='' @ body @ [CHR ''\<newline>'']))"
proof
  assume v: "valid_query q"
  show "q = [] \<or> q = [CHR ''\<newline>''] \<or>
     (\<exists>body. body \<noteq> [] \<and> CHR ''\<newline>'' \<notin> set body \<and>
        (q = ''?si='' @ body \<or> q = ''?si='' @ body @ [CHR ''\<newline>'']))"
  proof (cases "at_eol q")
    case True
    then have "q = [] \<or> q = [CHR ''\<newline>'']" by (simp add: at_eol_def)
    then show ?thesis by blast
  next
    case False
    define b where "b = drop 4 q"
    define body where "body = takeWhile not_newline b"
    from v False have p: "prefix ''?si='' q" and ne: "body \<noteq> []"
      and e: "at_eol (dropWhile not_newline b)"
      by (simp_all add: valid_query_def b_def body_def)
    from p obtain r where "q = ''?si='' @ r" by (auto simp: prefix_def)
    then have q: "q = ''?si='' @ b" by (simp add: b_def)
    have split: "b = body @ dropWhile not_newline b"
      by (simp add: body_def)
    have clean: "CHR ''\<newline>'' \<notin> set body"
    proof
      assume "CHR ''\<newline>'' \<in> set body"
      then have "not_newline CHR ''\<newline>''"
        unfolding body_def by (rule set_takeWhileD [THEN conjunct2])
      then show False by (simp add: not_newline_def)
    qed
    from e have "dropWhile not_newline b = [] \<or> dropWhile not_newline b = [CHR ''\<newline>'']"
      by (simp add: at_eol_def)
    then have "q = ''?si='' @ body \<or> q = ''?si='' @ body @ [CHR ''\<newline>'']"
    proof
      assume "dropWhile not_newline b = []"
      with split have "b = body" by simp
      with q show ?thesis by simp
    next
      assume "dropWhile not_newline b = [CHR ''\<newline>'']"
      with split have "b = body @ [CHR ''\<newline>'']" by simp
      with q show ?thesis by simp
    qed
    with ne clean show ?thesis by blast
  qed
next
  assume "q = [] \<or> q = [CHR ''\<newline>''] \<or>
     (\<exists>body. body \<noteq> [] \<and> CHR ''\<newline>'' \<notin> set body \<and>
        (q = ''?si='' @ body \<or> q = ''?si='' @ body @ [CHR ''\<newline>'']))"
  then consider "q = []" | "q = [CHR ''\<newline>'']"
    | body where "body \<noteq> []" "CHR ''\<newline>'' \<notin> set body" "q = ''?si='' @ body"
    | body where "body \<noteq> []" "CHR ''\<newline>'' \<notin> set body" "q = ''?si='' @ body @ [CHR ''\<newline>'']"
    by blast
  then show "valid_query q"
  proof cases
    case 1
    then show ?thesis by (simp add: valid_query_def at_eol_def)
  next
    case 2
    then show ?thesis by (simp add: valid_query_def at_eol_def)
  next
    case 3
    then show ?thesis using valid_query_si by simp
  next
    case 4
    then show ?thesis using valid_query_si_newline by simp
  qed
qed

text \<open>
  Claim C5 (as amended). For every resource type and every 22-character alphanumeric
  id, a URL (any of the three schemes, with or without the \<open>intl-\<close> segment) parses
  to the id in the slot of the type when the id is followed by nothing, by one final
  line feed, or by a query of the form \<open>?si=\<close> and one or more characters other than a
  line feed (with or without one final line feed after them); followed by anything
  else, so by any other query such as \<open>?utm=1\<close> or by \<open>?si=\<close> alone, it does not match:
  every slot is \<open>None\<close>. A URI followed by \<open>?\<close> and anything does not match either.
\<close>

theorem si_query_accepted:
  assumes "is_id x" "is_scheme sch" "is_intl seg"
  shows "regex_input_for_urls (url_form sch seg t @ x) = only t x \<and>
         (\<forall>body. body \<noteq> [] \<and> CHR ''\<newline>'' \<notin> set body \<longrightarrow>
            regex_input_for_urls (url_form sch seg t @ x @ ''?si='' @ body) = only t x \<and>
            regex_input_for_urls (url_form sch seg t @ x @ ''?si='' @ body @ [CHR ''\<newline>''])
              = only t x) \<and>
         (\<forall>q. regex_input_for_urls (url_form sch seg t @ x @ q) =
            (if valid_query q then only t x else no_ids)) \<and>
         (\<forall>q. valid_query q \<longleftrightarrow>
            q = [] \<or> q = [CHR ''\<newline>''] \<or>
            (\<exists>body. body \<noteq> [] \<and> CHR ''\<newline>'' \<notin> set body \<and>
               (q = ''?si='' @ body \<or> q = ''?si='' @ body @ [CHR ''\<newline>'']))) \<and>
         (\<forall>q. regex_input_for_urls (uri_form t @ x @ ''?'' @ q) = no_ids)"
proof -
  have general: "regex_input_for_urls (url_form sch seg t @ x @ q) =
      (if valid_query q then only t x else no_ids)" for q
  proof -
    have "regex_input_for_urls (url_form sch seg t @ (x @ q)) =
        (if is_id (take 22 (x @ q)) \<and> valid_query (drop 22 (x @ q))
         then only t (take 22 (x @ q)) else no_ids)"
      using assms(2,3) by (rule url_form_parse)
    then show ?thesis
      using is_id_append [OF assms(1), of q] assms(1) by (simp del: append.simps)
  qed
  have plain: "regex_input_for_urls (url_form sch seg t @ x) = only t x"
    using general [of "[]"] by (simp add: valid_query_def at_eol_def)
  have si: "regex_input_for_urls (url_form sch seg t @ x @ ''?si='' @ body) = only t x \<and>
      regex_input_for_urls (url_form sch seg t @ x @ ''?si='' @ body @ [CHR ''\<newline>'']) = only t x"
    if "body \<noteq> [] \<and> CHR ''\<newline>'' \<notin> set body" for body
  proof -
    from that have v1: "valid_query (''?si='' @ body)"
      and v2: "valid_query (''?si='' @ body @ [CHR ''\<newline>''])"
      using valid_query_si valid_query_si_newline by blast+
    from general [of "''?si='' @ body"] v1
    have "regex_input_for_urls (url_form sch seg t @ x @ ''?si='' @ body) = only t x"
      by (simp only: if_True)
    moreover from general [of "''?si='' @ body @ [CHR ''\<newline>'']"] v2
    have "regex_input_for_urls (url_form sch seg t @ x @ ''?si='' @ body @ [CHR ''\<newline>''])
        = only t x"
      by (simp only: if_True)
    ultimately show ?thesis by (rule conjI)
  qed
  have uri: "regex_input_for_urls (uri_form t @ x @ ''?'' @ q) = no_ids" for q
  proof -
    have "regex_input_for_urls (uri_form t @ (x @ ''?'' @ q)) = no_ids"
      unfolding uri_form_parse
      using is_id_append [OF assms(1), of "''?'' @ q"] by (simp add: at_eol_def)
    then show ?thesis by simp
  qed
  show ?thesis
  proof (intro conjI allI impI)
    show "regex_input_for_urls (url_form sch seg t @ x) = only t x"
      by (rule plain)
  next
    fix body :: string
    assume "body \<noteq> [] \<and> CHR ''\<newline>'' \<notin> set body"
    then show "regex_input_for_urls (url_form sch seg t @ x @ ''?si='' @ body) = only t x"
      by (rule si [THEN conjunct1])
  next
    fix body :: string
    assume "body \<noteq> [] \<and> CHR ''\<newline>'' \<notin> set body"
    then show "regex_input_for_urls (url_form sch seg t @ x @ ''?si='' @ body @ [CHR ''\<newline>''])
        = only t x"
      by (rule si [THEN conjunct2])
  next
    fix q
    show "regex_input_for_urls (url_form sch seg t @ x @ q) =
        (if valid_query q then only t x else no_ids)"
      by (rule general)
  next
    fix q
    show "valid_query q \<longleftrightarrow>
        q = [] \<or> q = [CHR ''\<newline>''] \<or>
        (\<exists>body. body \<noteq> [] \<and> CHR ''\<newline>'' \<notin> set body \<and>
           (q = ''?si='' @ body \<or> q = ''?si='' @ body @ [CHR ''\<newline>'']))"
      by (rule valid_query_forms)
  next
    fix q
    show "regex_input_for_urls (uri_form t @ x @ ''?'' @ q) = no_ids"
      by (rule uri)
  qed
qed

theorem si_query_accepted_witness:
  "is_id ''4uLU6hMCjMI75M1A2tKUQC'' \<and> is_scheme ''https://'' \<and> is_intl ''/intl-en'' \<and>
   ''xyz'' \<noteq> [] \<and> CHR ''\<newline>'' \<notin> set ''xyz'' \<and>
   regex_input_for_urls ''https://open.spotify.com/intl-en/show/4uLU6hMCjMI75M1A2tKUQC?si=xyz''
     = (None, None, None, None, Some ''4uLU6hMCjMI75M1A2tKUQC'', None) \<and>
   valid_query ''?si=xyz'' \<and> \<not> valid_query ''?utm=1'' \<and>
   regex_input_for_urls ''https://open.spotify.com/intl-en/show/4uLU6hMCjMI75M1A2tKUQC?utm=1''
     = (None, None, None, None, None, None) \<and>
   regex_input_for_urls ''spotify:show:4uLU6hMCjMI75M1A2tKUQC?si=xyz''
     = (None, None, None, None, None, None)"
proof -
  have h: "is_id ''4uLU6hMCjMI75M1A2tKUQC''" "is_scheme ''https://''" "is_intl ''/intl-en''"
    by (simp_all add: is_id_def is_alnum_def is_scheme_def is_intl_def is_word_def)
  have b: "''xyz'' \<noteq> []" "CHR ''\<newline>'' \<notin> set ''xyz''"
    by simp_all
  have v: "valid_query ''?si=xyz''" "\<not> valid_query ''?utm=1''"
    by (simp_all add: valid_query_def at_eol_def not_newline_def)
  note inst = si_query_accepted [OF h, of Show]
  note accepted = inst [THEN conjunct2, THEN conjunct1, rule_format, of "''xyz''"]
  note general = inst [THEN conjunct2, THEN conjunct2, THEN conjunct1, rule_format, of "''?utm=1''"]
  note uri = inst [THEN conjunct2, THEN conjunct2, THEN conjunct2, THEN conjunct2, rule_format,
    of "''si=xyz''"]
  from b have "''xyz'' \<noteq> [] \<and> CHR ''\<newline>'' \<notin> set ''xyz''"
    by (rule conjI)
  from accepted [OF this, THEN conjunct1]
  have one: "regex_input_for_urls
      ''https://open.spotify.com/intl-en/show/4uLU6hMCjMI75M1A2tKUQC?si=xyz''
      = (None, None, None, None, Some ''4uLU6hMCjMI75M1A2tKUQC'', None)"
    by (simp add: url_form_def)
  from general v(2)
  have two: "regex_input_for_urls
      ''https://open.spotify.com/intl-en/show/4uLU6hMCjMI75M1A2tKUQC?utm=1''
      = (None, None, None, None, None, None)"
    by (simp add: url_form_def no_ids_def)
  from uri
  have three: "regex_input_for_urls ''spotify:show:4uLU6hMCjMI75M1A2tKUQC?si=xyz''
      = (None, None, None, None, None, None)"
    by (simp add: uri_form_def no_ids_def)
  from h b v one two three show ?thesis
    by (simp only: simp_thms)
qed

theorem other_query_counterexample:
  "is_id ''4uLU6hMCjMI75M1A2tKUQC'' \<and>
   regex_input_for_urls ''https://open.spotify.com/track/4uLU6hMCjMI75M1A2tKUQC'' =
     (Some ''4uLU6hMCjMI75M1A2tKUQC'', None, None, None, None, None) \<and>
   regex_input_for_urls ''https://open.spotify.com/track/4uLU6hMCjMI75M1A2tKUQC?utm=1'' =
     (None, None, None, None, None, None)"
  by code_simp

text \<open>
  Claim C6 (as amended). The extractor is a total function: it raises nothing. The
  identifier part of a URI is all that follows the type; that of a URL (any scheme,
  with or without the \<open>intl-\<close> segment) is what follows the type up to the first \<open>?\<close> or
  to the end. Where the identifier part is not 22 alphanumeric characters, every slot
  is \<open>None\<close>, with one exception: an identifier part made of a valid identifier and one
  line feed, at the very end of the input, is accepted and gives the 22-character
  identifier in the slot of the type, since \<^verbatim>\<open>$\<close> also matches before a final line
  feed.
\<close>

theorem malformed_id_rejected:
  assumes "\<not> is_id x"
  shows "(\<not> id_then_newline x \<longrightarrow> regex_input_for_urls (uri_form t @ x) = no_ids) \<and>
         (is_scheme sch \<and> is_intl seg \<and> CHR ''?'' \<notin> set x \<and> (q = [] \<or> prefix ''?'' q) \<and>
          \<not> (q = [] \<and> id_then_newline x) \<longrightarrow>
            regex_input_for_urls (url_form sch seg t @ x @ q) = no_ids) \<and>
         (id_then_newline x \<longrightarrow>
            regex_input_for_urls (uri_form t @ x) = only t (take 22 x) \<and>
            (is_scheme sch \<and> is_intl seg \<longrightarrow>
               regex_input_for_urls (url_form sch seg t @ x) = only t (take 22 x)))"
proof (intro conjI impI)
  assume n: "\<not> id_then_newline x"
  have "\<not> (is_id (take 22 x) \<and> at_eol (drop 22 x))"
  proof
    assume a: "is_id (take 22 x) \<and> at_eol (drop 22 x)"
    show False
    proof (cases "drop 22 x = []")
      case True
      then have "take 22 x = x" by simp
      with a assms show False by simp
    next
      case False
      with a have "drop 22 x = [CHR ''\<newline>'']" by (simp add: at_eol_def)
      with a n show False by (simp add: id_then_newline_def)
    qed
  qed
  then show "regex_input_for_urls (uri_form t @ x) = no_ids"
    unfolding uri_form_parse by (rule if_not_P)
next
  assume h: "is_scheme sch \<and> is_intl seg \<and> CHR ''?'' \<notin> set x \<and> (q = [] \<or> prefix ''?'' q) \<and>
      \<not> (q = [] \<and> id_then_newline x)"
  have "\<not> (is_id (take 22 (x @ q)) \<and> valid_query (drop 22 (x @ q)))"
  proof
    assume a: "is_id (take 22 (x @ q)) \<and> valid_query (drop 22 (x @ q))"
    then have "is_id (take 22 (x @ q))" by (rule conjunct1)
    then have len: "22 \<le> length (x @ q)" and al: "list_all is_alnum (take 22 (x @ q))"
      using is_id_take [of "x @ q"] by blast+
    consider (short) "length x < 22" | (exact) "length x = 22" | (long) "22 < length x"
      by linarith
    then show False
    proof cases
      case exact
      then have "take 22 (x @ q) = x" by simp
      with a assms show False by simp
    next
      case short
      with len have "q \<noteq> []" by auto
      with h obtain q' where q: "q = CHR ''?'' # q'"
        by (cases q) auto
      from short have "take 22 (x @ q) = x @ CHR ''?'' # take (22 - Suc (length x)) q'"
        by (simp add: q take_Cons')
      with al have "list_all is_alnum (x @ CHR ''?'' # take (22 - Suc (length x)) q')"
        by (simp only:)
      then have "is_alnum CHR ''?''" by simp
      then show False by (simp add: question_not_alnum)
    next
      case long
      then have tk: "take 22 (x @ q) = take 22 x" and dr: "drop 22 (x @ q) = drop 22 x @ q"
        by simp_all
      from long obtain c cs where d: "drop 22 x = c # cs"
        by (cases "drop 22 x") auto
      have "c \<in> set (drop 22 x)" by (simp add: d)
      then have "c \<in> set x" by (rule in_set_dropD)
      with h have c: "c \<noteq> CHR ''?''" by auto
      from a have "valid_query (drop 22 (x @ q))" by (rule conjunct2)
      then have "valid_query (c # cs @ q)" by (simp only: dr d append_Cons)
      then have "cs @ q = [] \<and> c = CHR ''\<newline>''"
        using c by (auto simp: valid_query_def at_eol_def)
      then have "q = []" "drop 22 x = [CHR ''\<newline>'']" by (simp_all add: d)
      moreover from a have "is_id (take 22 (x @ q))" by (rule conjunct1)
      then have "is_id (take 22 x)" by (simp only: tk)
      ultimately show False using h by (simp add: id_then_newline_def)
    qed
  qed
  then have "(if is_id (take 22 (x @ q)) \<and> valid_query (drop 22 (x @ q))
      then only t (take 22 (x @ q)) else no_ids) = no_ids"
    by (rule if_not_P)
  moreover from h have "is_scheme sch" "is_intl seg" by simp_all
  then have "regex_input_for_urls (url_form sch seg t @ (x @ q)) =
      (if is_id (take 22 (x @ q)) \<and> valid_query (drop 22 (x @ q))
       then only t (take 22 (x @ q)) else no_ids)"
    by (rule url_form_parse)
  ultimately show "regex_input_for_urls (url_form sch seg t @ x @ q) = no_ids"
    by (simp only: append_assoc)
next
  assume "id_then_newline x"
  then have "is_id (take 22 x) \<and> at_eol (drop 22 x)"
    by (simp add: id_then_newline_def at_eol_def)
  then show "regex_input_for_urls (uri_form t @ x) = only t (take 22 x)"
    unfolding uri_form_parse by (rule if_P)
next
  assume "id_then_newline x" and h: "is_scheme sch \<and> is_intl seg"
  then have "is_id (take 22 x) \<and> valid_query (drop 22 x)"
    by (simp add: id_then_newline_def valid_query_def at_eol_def)
  then have "(if is_id (take 22 x) \<and> valid_query (drop 22 x) then only t (take 22 x) else no_ids)
      = only t (take 22 x)"
    by (rule if_P)
  moreover from h have "is_scheme sch" "is_intl seg" by simp_all
  then have "regex_input_for_urls (url_form sch seg t @ x) =
      (if is_id (take 22 x) \<and> valid_query (drop 22 x) then only t (take 22 x) else no_ids)"
    by (rule url_form_parse)
  ultimately show "regex_input_for_urls (url_form sch seg t @ x) = only t (take 22 x)"
    by simp
qed

theorem malformed_id_rejected_witness:
  "\<not> is_id ''4uLU6hMCjMI75M1A2tKUQ-'' \<and> \<not> id_then_newline ''4uLU6hMCjMI75M1A2tKUQ-'' \<and>
   is_scheme ''https://'' \<and> is_intl [] \<and> CHR ''?'' \<notin> set ''4uLU6hMCjMI75M1A2tKUQ-'' \<and>
   prefix ''?'' ''?si=xyz'' \<and>
   regex_input_for_urls ''spotify:artist:4uLU6hMCjMI75M1A2tKUQ-'' = (None, None, None, None, None, None) \<and>
   regex_input_for_urls ''https://open.spotify.com/artist/4uLU6hMCjMI75M1A2tKUQ-?si=xyz''
     = (None, None, None, None, None, None) \<and>
   \<not> is_id (''4uLU6hMCjMI75M1A2tKUQC'' @ [CHR ''\<newline>'']) \<and>
   id_then_newline (''4uLU6hMCjMI75M1A2tKUQC'' @ [CHR ''\<newline>'']) \<and>
   regex_input_for_urls (''spotify:artist:4uLU6hMCjMI75M1A2tKUQC'' @ [CHR ''\<newline>''])
     = (None, None, None, None, None, Some ''4uLU6hMCjMI75M1A2tKUQC'') \<and>
   regex_input_for_urls (''https://open.spotify.com/artist/4uLU6hMCjMI75M1A2tKUQC'' @ [CHR ''\<newline>''])
     = (None, None, None, None, None, Some ''4uLU6hMCjMI75M1A2tKUQC'')"
proof -
  have h: "\<not> is_id ''4uLU6hMCjMI75M1A2tKUQ-''"
    by (simp add: is_id_def is_alnum_def)
  have g: "\<not> id_then_newline ''4uLU6hMCjMI75M1A2tKUQ-''" "is_scheme ''https://''" "is_intl []"
    "CHR ''?'' \<notin> set ''4uLU6hMCjMI75M1A2tKUQ-''" "prefix ''?'' ''?si=xyz''"
    by (simp_all add: id_then_newline_def is_scheme_def is_intl_def)
  have h2: "\<not> is_id (''4uLU6hMCjMI75M1A2tKUQC'' @ [CHR ''\<newline>''])"
    by (simp add: is_id_def)
  have g2: "id_then_newline (''4uLU6hMCjMI75M1A2tKUQC'' @ [CHR ''\<newline>''])"
    by (simp add: id_then_newline_def is_id_def is_alnum_def)
  from malformed_id_rejected [OF h, of Artist "''https://''" "[]" "''?si=xyz''"] h g
  have first: "regex_input_for_urls ''spotify:artist:4uLU6hMCjMI75M1A2tKUQ-'' = (None, None, None, None, None, None) \<and>
      regex_input_for_urls ''https://open.spotify.com/artist/4uLU6hMCjMI75M1A2tKUQ-?si=xyz''
        = (None, None, None, None, None, None)"
    by (simp add: url_form_def uri_form_def no_ids_def)
  from malformed_id_rejected [OF h2, of Artist "''https://''" "[]" "[]"] g2 g(2,3)
  have second: "regex_input_for_urls (''spotify:artist:4uLU6hMCjMI75M1A2tKUQC'' @ [CHR ''\<newline>''])
        = (None, None, None, None, None, Some ''4uLU6hMCjMI75M1A2tKUQC'') \<and>
      regex_input_for_urls (''https://open.spotify.com/artist/4uLU6hMCjMI75M1A2tKUQC'' @ [CHR ''\<newline>''])
        = (None, None, None, None, None, Some ''4uLU6hMCjMI75M1A2tKUQC'')"
    by (simp add: url_form_def uri_form_def)
  from first second h g h2 g2 show ?thesis by simp
qed

theorem trailing_newline_counterexample:
  "length (''4uLU6hMCjMI75M1A2tKUQC'' @ [CHR ''\<newline>'']) = 23 \<and>
   \<not> is_alnum CHR ''\<newline>'' \<and>
   regex_input_for_urls (''spotify:track:'' @ ''4uLU6hMCjMI75M1A2tKUQC'' @ [CHR ''\<newline>'']) =
     (Some ''4uLU6hMCjMI75M1A2tKUQC'', None, None, None, None, None)"
  by code_simp

theorem at_most_one_slot_witness:
  "regex_input_for_urls ''spotify:episode:4uLU6hMCjMI75M1A2tKUQC'' =
     (None, None, None, Some ''4uLU6hMCjMI75M1A2tKUQC'', None, None) \<and>
   populated (regex_input_for_urls ''spotify:episode:4uLU6hMCjMI75M1A2tKUQC'') \<le> 1"
proof -
  have "regex_input_for_urls ''spotify:episode:4uLU6hMCjMI75M1A2tKUQC'' =
      (None, None, None, Some ''4uLU6hMCjMI75M1A2tKUQC'', None, None)"
    by code_simp
  then show ?thesis
    using at_most_one_slot [of "''spotify:episode:4uLU6hMCjMI75M1A2tKUQC''"] by simp
qed

section \<open>Properties of the filename sanitizer\<close>

lemma lit_match_drop:
  "lit_match ic l s = Some s' \<Longrightarrow> length l \<le> length s \<and> s' = drop (length l) s"
proof (induction l arbitrary: s)
  case Nil
  then show ?case by simp
next
  case (Cons a l)
  then show ?case by (cases s) (auto split: if_splits)
qed

lemma rmatch_consumes:
  "(j, s', g') \<in> set (rmatch ic r (i, s, g)) \<Longrightarrow>
     i \<le> j \<and> j - i \<le> length s \<and> s' = drop (j - i) s"
proof (induction r arbitrary: i s g j s' g')
  case (Lit l)
  then have u: "lit_match ic l s = Some s'" and res: "j = i + length l"
    by (auto split: option.splits)
  from lit_match_drop [OF u] res show ?case by simp
next
  case (Cls P)
  then show ?case by (cases s) (auto split: if_splits)
next
  case Bol
  then show ?case by (auto split: if_splits)
next
  case Eol
  then show ?case by (auto split: if_splits)
next
  case (Seq a b)
  from Seq.prems obtain k u h where mid: "(k, u, h) \<in> set (rmatch ic a (i, s, g))"
    and fin: "(j, s', g') \<in> set (rmatch ic b (k, u, h))"
    by auto
  from Seq.IH(1) [OF mid] have a: "i \<le> k" "k - i \<le> length s" "u = drop (k - i) s" by simp_all
  from Seq.IH(2) [OF fin] have b: "k \<le> j" "j - k \<le> length u" "s' = drop (j - k) u" by simp_all
  from a b show ?case by (auto simp: add.commute)
next
  case (Alt a b)
  then show ?case by auto
next
  case (Opt a)
  then show ?case by auto
next
  case (Many1 P)
  have "length (takeWhile P s) \<le> length s" by (rule length_takeWhile_le)
  with Many1 show ?case by auto
next
  case (Many1Lazy P)
  have "length (takeWhile P s) \<le> length s" by (rule length_takeWhile_le)
  with Many1Lazy show ?case by auto
next
  case (NotAhead a)
  then show ?case by (auto split: if_splits)
next
  case (Group n a)
  then show ?case by auto
qed

lemma fix_later:
  "rmatch True fix_re (Suc i, c # cs, []) =
     (if is_forbidden c then [(Suc (Suc i), cs, [])] else []) @
     (if is_space_or_dot c \<and> at_eol cs then [(Suc (Suc i), cs, [])] else [])"
  by (simp add: fix_re_def at_eol_def)

lemma fix_later_Nil: "rmatch True fix_re (Suc i, [], []) = []"
  by (simp add: fix_re_def)

lemma sub_later: "sub_from True fix_re ''_'' (Suc i) s = tail_fix s"
proof (induction s arbitrary: i)
  case Nil
  show ?case
    by (subst sub_from.simps) (simp add: fix_later_Nil)
next
  case (Cons c cs)
  show ?case
    by (subst sub_from.simps) (simp add: fix_later Cons del: rmatch.simps)
qed

lemma fix_start:
  "rmatch True fix_re (0, c # cs, []) =
     (if is_forbidden c then [(1, cs, [])] else []) @ reserved_match (c # cs) @
     (if is_space c then [(1, cs, [])] else []) @
     (if is_space_or_dot c \<and> at_eol cs then [(1, cs, [])] else [])"
  unfolding fix_re_def reserved_match_def
  by (simp add: at_eol_def)

lemma fix_start_Nil: "rmatch True fix_re (0, [], []) = reserved_match []"
  unfolding fix_re_def reserved_match_def by simp

lemma reserved_re_length:
  "(j, s', g') \<in> set (rmatch True reserved_re (0, s, g)) \<Longrightarrow> 3 \<le> j"
  unfolding reserved_re_def by (auto split: option.splits list.splits if_splits)

lemma reserved_match_shape:
  assumes "(j, s', g') \<in> set (reserved_match s)"
  shows "3 \<le> j \<and> j \<le> length s \<and> s' = drop j s"
proof -
  from assms obtain k u h where
    mid: "(k, u, h) \<in> set (rmatch True (Group ''1'' reserved_re) (0, s, []))"
    and fin: "(j, s', g') \<in> set (rmatch True (NotAhead (Cls not_dot)) (k, u, h))"
    unfolding reserved_match_def by (auto simp del: rmatch.simps(2,10,11))
  from fin have same: "j = k" "s' = u"
    by (auto split: if_splits)
  from mid obtain h' where "(k, u, h') \<in> set (rmatch True reserved_re (0, s, []))"
    by auto
  then have "3 \<le> k" by (rule reserved_re_length)
  moreover from rmatch_consumes [OF mid] have "k \<le> length s" "u = drop k s" by simp_all
  ultimately show ?thesis using same by simp
qed

lemma reserved_match_Nil: "reserved_match [] = []"
proof (cases "reserved_match []")
  case Nil
  then show ?thesis .
next
  case (Cons m ms)
  obtain j s' g' where "m = (j, s', g')" by (cases m)
  with Cons have "(j, s', g') \<in> set (reserved_match [])" by simp
  from reserved_match_shape [OF this] have "3 \<le> j \<and> j \<le> length ([] :: string)"
    by blast
  then show ?thesis by auto
qed

lemma fix_re_consumes:
  assumes "(j, s', g') \<in> set (rmatch True fix_re (i, s, []))"
  shows "i < j"
proof (cases i)
  case 0
  show ?thesis
  proof (cases s)
    case Nil
    with assms 0 show ?thesis
      by (simp only: fix_start_Nil reserved_match_Nil) simp
  next
    case (Cons c cs)
    with assms 0 have "(j, s', g') \<in> set (reserved_match (c # cs)) \<or> j = 1"
      by (simp only: fix_start) (auto split: if_splits)
    then show ?thesis
      using reserved_match_shape [of j s' g' "c # cs"] 0 by auto
  qed
next
  case (Suc k)
  show ?thesis
  proof (cases s)
    case Nil
    with assms Suc show ?thesis
      by (simp only: fix_later_Nil) simp
  next
    case (Cons c cs)
    with assms Suc show ?thesis
      by (simp only: fix_later) (auto split: if_splits)
  qed
qed

lemma fix_filename_Nil: "fix_filename [] = []"
  unfolding fix_filename_def re_sub_def
  by (subst sub_from.simps) (simp add: fix_start_Nil reserved_match_Nil del: rmatch.simps)

lemma fix_filename_Cons:
  "fix_filename (c # cs) =
     (if is_forbidden c then CHR ''_'' # tail_fix cs
      else (case reserved_match (c # cs) of
              (j, s', g) # _ \<Rightarrow> CHR ''_'' # tail_fix s'
            | [] \<Rightarrow> (if is_space c \<or> (is_space_or_dot c \<and> at_eol cs) then CHR ''_'' else c)
                    # tail_fix cs))"
proof (cases "is_forbidden c")
  case True
  then show ?thesis
    unfolding fix_filename_def re_sub_def
    using sub_later [of 0 cs]
    by (subst sub_from.simps) (simp add: fix_start del: rmatch.simps)
next
  case False
  show ?thesis
  proof (cases "reserved_match (c # cs)")
    case Nil
    with False show ?thesis
      unfolding fix_filename_def re_sub_def
      using sub_later [of 0 cs]
      by (subst sub_from.simps) (simp add: fix_start del: rmatch.simps)
  next
    case (Cons m ms)
    obtain j s' g' where m: "m = (j, s', g')" by (cases m)
    with Cons have "(j, s', g') \<in> set (reserved_match (c # cs))" by simp
    from reserved_match_shape [OF this]
    have j: "3 \<le> j" "j \<le> length (c # cs)" and s': "s' = drop j (c # cs)" by simp_all
    then have shorter: "length s' < length (c # cs)" by simp
    from j obtain j' where j': "j = Suc j'" by (cases j) simp_all
    have "sub_from True fix_re ''_'' j s' = tail_fix s'"
      unfolding j' by (rule sub_later)
    with False Cons m shorter show ?thesis
      unfolding fix_filename_def re_sub_def
      by (subst sub_from.simps) (simp add: fix_start del: rmatch.simps)
  qed
qed

lemma not_ahead_dot:
  "rmatch True (NotAhead (Cls not_dot)) (k, r, h) = (if dot_or_end r then [(k, r, h)] else [])"
  by (cases r) (simp_all add: dot_or_end_def not_dot_def)

lemma seq_lit3:
  "concat (map (rmatch True (NotAhead (Cls not_dot)))
      (map (\<lambda>(j, s', g'). (j, s', (n, take (j - 0) s) # g')) (rmatch True (Lit l) (0, s, [])))) \<noteq> []
   \<longleftrightarrow> name3 l s"
  by (auto simp: name3_def not_ahead_dot simp del: rmatch.simps(10) split: option.splits)

lemma seq_lit4:
  "concat (map (rmatch True (NotAhead (Cls not_dot)))
      (map (\<lambda>(j, s', g'). (j, s', (n, take (j - 0) s) # g'))
         (rmatch True (Seq (Lit l) (Cls is_digit19)) (0, s, [])))) \<noteq> []
   \<longleftrightarrow> name4 l s"
  by (auto simp: name4_def not_ahead_dot simp del: rmatch.simps(10) split: option.splits list.splits)

lemma reserved_match_names:
  "reserved_match s \<noteq> [] \<longleftrightarrow>
     name3 ''AUX'' s \<or> name4 ''COM'' s \<or> name3 ''CON'' s \<or> name4 ''LPT'' s \<or>
     name3 ''NUL'' s \<or> name3 ''PRN'' s"
proof -
  have "reserved_match s =
      concat (map (rmatch True (NotAhead (Cls not_dot)))
        (map (\<lambda>(j, s', g'). (j, s', (''1'', take (j - 0) s) # g')) (rmatch True (Lit ''AUX'') (0, s, [])))) @
      concat (map (rmatch True (NotAhead (Cls not_dot)))
        (map (\<lambda>(j, s', g'). (j, s', (''1'', take (j - 0) s) # g'))
           (rmatch True (Seq (Lit ''COM'') (Cls is_digit19)) (0, s, [])))) @
      concat (map (rmatch True (NotAhead (Cls not_dot)))
        (map (\<lambda>(j, s', g'). (j, s', (''1'', take (j - 0) s) # g')) (rmatch True (Lit ''CON'') (0, s, [])))) @
      concat (map (rmatch True (NotAhead (Cls not_dot)))
        (map (\<lambda>(j, s', g'). (j, s', (''1'', take (j - 0) s) # g'))
           (rmatch True (Seq (Lit ''LPT'') (Cls is_digit19)) (0, s, [])))) @
      concat (map (rmatch True (NotAhead (Cls not_dot)))
        (map (\<lambda>(j, s', g'). (j, s', (''1'', take (j - 0) s) # g')) (rmatch True (Lit ''NUL'') (0, s, [])))) @
      concat (map (rmatch True (NotAhead (Cls not_dot)))
        (map (\<lambda>(j, s', g'). (j, s', (''1'', take (j - 0) s) # g')) (rmatch True (Lit ''PRN'') (0, s, []))))"
    unfolding reserved_match_def reserved_re_def
    by (simp only: rmatch.simps(5) rmatch.simps(6) rmatch.simps(11) map_append concat_append)
  then show ?thesis
    by (simp only: append_is_Nil_conv de_Morgan_conj seq_lit3 seq_lit4)
qed

lemma masked_lit:
  assumes "masked out s" "lit_match True l out = Some ro"
    "\<forall>a \<in> set l. lower_code a \<noteq> lower_code CHR ''_''"
  shows "\<exists>rs. lit_match True l s = Some rs \<and> masked ro rs"
  using assms
proof (induction l arbitrary: out s)
  case Nil
  then show ?case by simp
next
  case (Cons a l)
  from Cons.prems(2) obtain c cs where out: "out = c # cs"
    by (cases out) simp_all
  with Cons.prems(1) obtain d ds where s: "s = d # ds" and cd: "c = d \<or> c = CHR ''_''"
    and rest: "masked cs ds"
    by (cases s) (auto simp: masked_def)
  from Cons.prems(2) out have eq: "lower_code a = lower_code c" and tl: "lit_match True l cs = Some ro"
    by (auto simp: char_eq_def split: if_splits)
  from eq Cons.prems(3) have "c \<noteq> CHR ''_''" by auto
  with cd have "c = d" by simp
  moreover from Cons.IH [OF rest tl] Cons.prems(3)
  obtain rs where "lit_match True l ds = Some rs" "masked ro rs" by auto
  ultimately show ?case
    using eq by (simp add: s char_eq_def)
qed

lemma masked_dot_or_end: "masked ro rs \<Longrightarrow> dot_or_end ro \<Longrightarrow> dot_or_end rs"
  by (cases ro; cases rs) (auto simp: masked_def dot_or_end_def)

lemma masked_name3:
  assumes "masked out s" "name3 l out" "\<forall>a \<in> set l. lower_code a \<noteq> lower_code CHR ''_''"
  shows "name3 l s"
proof -
  from assms(2) obtain ro where ro: "lit_match True l out = Some ro" "dot_or_end ro"
    by (auto simp: name3_def split: option.splits)
  from masked_lit [OF assms(1) ro(1) assms(3)] obtain rs
    where rs: "lit_match True l s = Some rs" "masked ro rs" by blast
  with ro(2) show ?thesis
    using masked_dot_or_end by (simp add: name3_def)
qed

lemma underscore_not_digit: "\<not> is_digit19 CHR ''_''"
  by (simp add: is_digit19_def)

lemma masked_name4:
  assumes "masked out s" "name4 l out" "\<forall>a \<in> set l. lower_code a \<noteq> lower_code CHR ''_''"
  shows "name4 l s"
proof -
  from assms(2) obtain d ro where ro: "lit_match True l out = Some (d # ro)" "is_digit19 d"
    "dot_or_end ro"
    by (auto simp: name4_def split: option.splits list.splits)
  from masked_lit [OF assms(1) ro(1) assms(3)] obtain rs
    where rs: "lit_match True l s = Some rs" "masked (d # ro) rs" by blast
  from ro(2) have "d \<noteq> CHR ''_''"
    using underscore_not_digit by auto
  with rs(2) obtain rs' where "rs = d # rs'" "masked ro rs'"
    by (cases rs) (auto simp: masked_def)
  with rs(1) ro(2,3) show ?thesis
    using masked_dot_or_end by (simp add: name4_def)
qed

lemma masked_reserved:
  assumes "masked out s" "reserved_match out \<noteq> []"
  shows "reserved_match s \<noteq> []"
proof -
  have l: "\<forall>a \<in> set ''AUX''. lower_code a \<noteq> lower_code CHR ''_''"
    "\<forall>a \<in> set ''COM''. lower_code a \<noteq> lower_code CHR ''_''"
    "\<forall>a \<in> set ''CON''. lower_code a \<noteq> lower_code CHR ''_''"
    "\<forall>a \<in> set ''LPT''. lower_code a \<noteq> lower_code CHR ''_''"
    "\<forall>a \<in> set ''NUL''. lower_code a \<noteq> lower_code CHR ''_''"
    "\<forall>a \<in> set ''PRN''. lower_code a \<noteq> lower_code CHR ''_''"
    by (simp_all add: lower_code_def)
  from assms(2) consider "name3 ''AUX'' out" | "name4 ''COM'' out" | "name3 ''CON'' out"
    | "name4 ''LPT'' out" | "name3 ''NUL'' out" | "name3 ''PRN'' out"
    unfolding reserved_match_names by blast
  then show ?thesis
    unfolding reserved_match_names
    using masked_name3 [OF assms(1)] masked_name4 [OF assms(1)] l
    by cases blast+
qed

lemma masked_tail_fix: "masked (tail_fix s) s"
  by (induction s) (simp_all add: masked_def)

lemma tail_fix_length: "length (tail_fix s) = length s"
  by (induction s) simp_all

lemma newline_forbidden: "is_forbidden CHR ''\<newline>''"
  by (simp add: is_forbidden_def)

lemma tail_fix_eol: "at_eol (tail_fix s) \<longleftrightarrow> s = []"
proof (cases s)
  case Nil
  then show ?thesis by (simp add: at_eol_def)
next
  case (Cons c cs)
  show ?thesis
  proof (cases cs)
    case Nil
    with Cons show ?thesis
      using newline_forbidden by (auto simp: at_eol_def)
  next
    case (Cons d ds)
    with \<open>s = c # cs\<close> show ?thesis by (simp add: at_eol_def)
  qed
qed

lemma underscore_kept:
  "\<not> is_forbidden CHR ''_''" "\<not> is_space CHR ''_''" "\<not> is_space_or_dot CHR ''_''"
  by (simp_all add: is_forbidden_def is_space_def is_space_or_dot_def)

lemma tail_fix_idem: "tail_fix (tail_fix s) = tail_fix s"
proof (induction s)
  case Nil
  then show ?case by simp
next
  case (Cons c cs)
  have "at_eol (tail_fix cs) \<Longrightarrow> at_eol cs"
  proof -
    assume "at_eol (tail_fix cs)"
    then have "cs = []" by (simp only: tail_fix_eol)
    then show "at_eol cs" by (simp add: at_eol_def)
  qed
  with Cons show ?case
    by (auto simp: underscore_kept)
qed

lemma reserved_match_underscore: "reserved_match (CHR ''_'' # u) = []"
proof -
  have "\<not> name3 l (CHR ''_'' # u)" "\<not> name4 l (CHR ''_'' # u)"
    if "l \<noteq> [] \<and> lower_code (hd l) \<noteq> lower_code CHR ''_''" for l
    using that by (cases l; simp add: name3_def name4_def char_eq_def)+
  then show ?thesis
    using reserved_match_names [of "CHR ''_'' # u"] by (simp add: lower_code_def)
qed

lemma fix_filename_underscore: "fix_filename (CHR ''_'' # tail_fix u) = CHR ''_'' # tail_fix u"
  by (simp add: fix_filename_Cons underscore_kept reserved_match_underscore tail_fix_idem)

text \<open>
  Claim C3. Sanitizing twice gives the same result as sanitizing once, for every
  input string.
\<close>

theorem fix_filename_idempotent: "fix_filename (fix_filename s) = fix_filename s"
proof (cases s)
  case Nil
  then show ?thesis by (simp add: fix_filename_Nil)
next
  case (Cons c cs)
  consider (marked) u where "fix_filename (c # cs) = CHR ''_'' # tail_fix u"
    | (kept) "fix_filename (c # cs) = c # tail_fix cs" "\<not> is_forbidden c"
        "reserved_match (c # cs) = []" "\<not> is_space c" "\<not> (is_space_or_dot c \<and> at_eol cs)"
  proof (cases "is_forbidden c")
    case True
    then have "fix_filename (c # cs) = CHR ''_'' # tail_fix cs"
      by (simp add: fix_filename_Cons)
    then show ?thesis by (rule marked)
  next
    case False
    show ?thesis
    proof (cases "reserved_match (c # cs)")
      case (Cons m ms)
      obtain j s' g where "m = (j, s', g)" by (cases m)
      with False Cons have "fix_filename (c # cs) = CHR ''_'' # tail_fix s'"
        by (simp add: fix_filename_Cons)
      then show ?thesis by (rule marked)
    next
      case Nil
      show ?thesis
      proof (cases "is_space c \<or> (is_space_or_dot c \<and> at_eol cs)")
        case True
        with False Nil have "fix_filename (c # cs) = CHR ''_'' # tail_fix cs"
          by (simp add: fix_filename_Cons)
        then show ?thesis by (rule marked)
      next
        case no: False
        with False Nil have "fix_filename (c # cs) = c # tail_fix cs"
          by (auto simp: fix_filename_Cons)
        with False Nil no show ?thesis by (intro kept) simp_all
      qed
    qed
  qed
  then show ?thesis
  proof cases
    case marked
    then show ?thesis
      unfolding Cons by (simp only: fix_filename_underscore)
  next
    case kept
    have "masked (c # tail_fix cs) (c # cs)"
      using masked_tail_fix [of cs] by (simp add: masked_def)
    then have r: "reserved_match (c # tail_fix cs) = []"
      using masked_reserved [of "c # tail_fix cs" "c # cs"] kept(3) by blast
    have "\<not> (is_space_or_dot c \<and> at_eol (tail_fix cs))"
    proof
      assume a: "is_space_or_dot c \<and> at_eol (tail_fix cs)"
      then have "cs = []" by (simp only: tail_fix_eol)
      then have "at_eol cs" by (simp add: at_eol_def)
      with a kept(5) show False by simp
    qed
    with kept(2,4) r have "fix_filename (c # tail_fix cs) = c # tail_fix (tail_fix cs)"
      by (auto simp: fix_filename_Cons)
    then show ?thesis
      unfolding Cons kept(1) by (simp only: tail_fix_idem)
  qed
qed

lemma tail_fix_nth:
  "i < length cs \<Longrightarrow>
   tail_fix cs ! i =
     (if is_forbidden (cs ! i) \<or> (is_space_or_dot (cs ! i) \<and> at_eol (drop (Suc i) cs))
      then CHR ''_'' else cs ! i)"
proof (induction cs arbitrary: i)
  case Nil
  then show ?case by simp
next
  case (Cons c cs)
  then show ?case by (cases i) simp_all
qed

lemma alt3:
  assumes "length l = 3"
  shows "concat (map (rmatch True (NotAhead (Cls not_dot)))
      (map (\<lambda>(j, s', g'). (j, s', (n, take (j - 0) s) # g')) (rmatch True (Lit l) (0, s, []))))
    = (if name3 l s then [(3, drop 3 s, [(n, take 3 s)])] else [])"
proof (cases "lit_match True l s")
  case None
  then show ?thesis by (simp add: name3_def)
next
  case (Some r)
  from lit_match_drop [OF this] assms have "r = drop 3 s" by simp
  with Some assms show ?thesis
    by (simp add: name3_def not_ahead_dot del: rmatch.simps(10))
qed

lemma drop_next: "drop 3 s = d # r \<Longrightarrow> drop 4 s = r"
proof -
  assume a: "drop 3 s = d # r"
  have "drop 4 s = drop (Suc 3) s" by simp
  also have "\<dots> = tl (drop 3 s)" by (simp only: drop_Suc tl_drop)
  finally show ?thesis using a by simp
qed

lemma alt4:
  assumes "length l = 3"
  shows "concat (map (rmatch True (NotAhead (Cls not_dot)))
      (map (\<lambda>(j, s', g'). (j, s', (n, take (j - 0) s) # g'))
         (rmatch True (Seq (Lit l) (Cls is_digit19)) (0, s, []))))
    = (if name4 l s then [(4, drop 4 s, [(n, take 4 s)])] else [])"
proof (cases "lit_match True l s")
  case None
  then show ?thesis by (simp add: name4_def)
next
  case (Some r)
  from lit_match_drop [OF this] assms have r: "r = drop 3 s" by simp
  show ?thesis
  proof (cases r)
    case Nil
    with Some show ?thesis by (simp add: name4_def)
  next
    case (Cons d r')
    with r have "drop 3 s = d # r'" by simp
    then have "drop 4 s = r'" by (rule drop_next)
    with Some Cons assms show ?thesis
      by (simp add: name4_def not_ahead_dot del: rmatch.simps(10))
  qed
qed

lemma reserved_match_alts:
  "reserved_match s =
     (if name3 ''AUX'' s then [(3, drop 3 s, [(''1'', take 3 s)])] else []) @
     (if name4 ''COM'' s then [(4, drop 4 s, [(''1'', take 4 s)])] else []) @
     (if name3 ''CON'' s then [(3, drop 3 s, [(''1'', take 3 s)])] else []) @
     (if name4 ''LPT'' s then [(4, drop 4 s, [(''1'', take 4 s)])] else []) @
     (if name3 ''NUL'' s then [(3, drop 3 s, [(''1'', take 3 s)])] else []) @
     (if name3 ''PRN'' s then [(3, drop 3 s, [(''1'', take 3 s)])] else [])"
proof -
  have "reserved_match s =
      concat (map (rmatch True (NotAhead (Cls not_dot)))
        (map (\<lambda>(j, s', g'). (j, s', (''1'', take (j - 0) s) # g')) (rmatch True (Lit ''AUX'') (0, s, [])))) @
      concat (map (rmatch True (NotAhead (Cls not_dot)))
        (map (\<lambda>(j, s', g'). (j, s', (''1'', take (j - 0) s) # g'))
           (rmatch True (Seq (Lit ''COM'') (Cls is_digit19)) (0, s, [])))) @
      concat (map (rmatch True (NotAhead (Cls not_dot)))
        (map (\<lambda>(j, s', g'). (j, s', (''1'', take (j - 0) s) # g')) (rmatch True (Lit ''CON'') (0, s, [])))) @
      concat (map (rmatch True (NotAhead (Cls not_dot)))
        (map (\<lambda>(j, s', g'). (j, s', (''1'', take (j - 0) s) # g'))
           (rmatch True (Seq (Lit ''LPT'') (Cls is_digit19)) (0, s, [])))) @
      concat (map (rmatch True (NotAhead (Cls not_dot)))
        (map (\<lambda>(j, s', g'). (j, s', (''1'', take (j - 0) s) # g')) (rmatch True (Lit ''NUL'') (0, s, [])))) @
      concat (map (rmatch True (NotAhead (Cls not_dot)))
        (map (\<lambda>(j, s', g'). (j, s', (''1'', take (j - 0) s) # g')) (rmatch True (Lit ''PRN'') (0, s, []))))"
    unfolding reserved_match_def reserved_re_def
    by (simp only: rmatch.simps(5) rmatch.simps(6) rmatch.simps(11) map_append concat_append)
  moreover have three: "length ''AUX'' = 3" "length ''COM'' = 3" "length ''CON'' = 3"
    "length ''LPT'' = 3" "length ''NUL'' = 3" "length ''PRN'' = 3"
    by simp_all
  ultimately show ?thesis
    by (simp only: alt3 [OF three(1)] alt4 [OF three(2)] alt3 [OF three(3)] alt4 [OF three(4)]
      alt3 [OF three(5)] alt3 [OF three(6)])
qed

lemma reserved_match_first:
  "case reserved_match s of
     [] \<Rightarrow> reserved_length s = 0
   | (j, s', g) # _ \<Rightarrow> j = reserved_length s \<and> 0 < j \<and> s' = drop j s"
  unfolding reserved_match_alts reserved_length_def by simp

lemma name_first:
  assumes "name3 (a # l) (c # cs) \<or> name4 (a # l) (c # cs)"
  shows "lower_code c = lower_code a"
  using assms by (auto simp: name3_def name4_def char_eq_def split: if_splits)

lemma reserved_not_forbidden:
  assumes "0 < reserved_length (c # cs)"
  shows "\<not> is_forbidden c"
proof -
  from assms have "name3 ''AUX'' (c # cs) \<or> name4 ''COM'' (c # cs) \<or> name3 ''CON'' (c # cs) \<or>
      name4 ''LPT'' (c # cs) \<or> name3 ''NUL'' (c # cs) \<or> name3 ''PRN'' (c # cs)"
    unfolding reserved_length_def by (simp split: if_splits)
  then have "lower_code c = lower_code CHR ''A'' \<or> lower_code c = lower_code CHR ''C'' \<or>
      lower_code c = lower_code CHR ''L'' \<or> lower_code c = lower_code CHR ''N'' \<or>
      lower_code c = lower_code CHR ''P''"
    using name_first [of _ _ c cs] by blast
  then have "lower_code c = 97 \<or> lower_code c = 99 \<or> lower_code c = 108 \<or>
      lower_code c = 110 \<or> lower_code c = 112"
    by (simp add: lower_code_def)
  then show ?thesis
    unfolding lower_code_def is_forbidden_def Let_def
    by (auto split: if_splits)
qed

lemma fix_filename_reserved:
  assumes "0 < reserved_length s"
  shows "reserved_length s \<le> length s \<and>
         fix_filename s = CHR ''_'' # tail_fix (drop (reserved_length s) s)"
proof (cases s)
  case Nil
  with reserved_match_first [of s] assms show ?thesis
    by (simp add: reserved_match_Nil)
next
  case (Cons c cs)
  from assms Cons have nf: "\<not> is_forbidden c"
    using reserved_not_forbidden by simp
  show ?thesis
  proof (cases "reserved_match s")
    case Nil
    with reserved_match_first [of s] assms show ?thesis by simp
  next
    case (Cons m ms)
    obtain j s' g where m: "m = (j, s', g)" by (cases m)
    with Cons reserved_match_first [of s]
    have j: "j = reserved_length s" "s' = drop j s" by simp_all
    from Cons m have "(j, s', g) \<in> set (reserved_match s)" by simp
    from reserved_match_shape [OF this] have "j \<le> length s" by simp
    moreover from nf Cons m \<open>s = c # cs\<close> have "fix_filename s = CHR ''_'' # tail_fix s'"
      by (simp add: fix_filename_Cons)
    ultimately show ?thesis using j by simp
  qed
qed

lemma fix_filename_plain:
  assumes "reserved_length s = 0"
  shows "reserved_match s = []"
proof (cases "reserved_match s")
  case Nil
  then show ?thesis .
next
  case (Cons m ms)
  obtain j s' g where "m = (j, s', g)" by (cases m)
  with Cons reserved_match_first [of s] have "j = reserved_length s \<and> 0 < j"
    by simp
  with assms show ?thesis by simp
qed

text \<open>
  Claim C4 (as amended). \<open>fix_filename\<close> replaces single characters; it does not
  collapse a run into one marker. Where the input does not start with a reserved
  device name (\<open>AUX\<close>, \<open>CON\<close>, \<open>NUL\<close>, \<open>PRN\<close>, \<open>COM1\<close>..\<open>COM9\<close>, \<open>LPT1\<close>..\<open>LPT9\<close> in any
  letter case, followed by a period or by the end of the input), the output has the
  length of the input, and a character becomes \<open>_\<close> exactly when it is a forbidden
  character, or it is the first character and whitespace, or it is whitespace or a
  period and is the last character (or only a final line feed follows it); every other
  character is kept. Where the input starts with such a name, the name as a whole
  becomes one \<open>_\<close>, and each character behind it becomes \<open>_\<close> exactly when it is a
  forbidden character, or whitespace or a period at the end (or before a final line
  feed), and is kept otherwise. So of a leading run of whitespace only the first
  character, and of a trailing run of whitespace or periods only the last one, becomes
  \<open>_\<close>.
\<close>

theorem fix_filename_positions:
  "let k = reserved_length s in
     if k = 0 then
       length (fix_filename s) = length s \<and>
       (\<forall>i < length s.
          fix_filename s ! i =
            (if is_forbidden (s ! i) \<or> (i = 0 \<and> is_space (s ! i)) \<or>
                (is_space_or_dot (s ! i) \<and> at_eol (drop (Suc i) s))
             then CHR ''_'' else s ! i))
     else
       k \<le> length s \<and> length (fix_filename s) = Suc (length s - k) \<and>
       fix_filename s ! 0 = CHR ''_'' \<and>
       (\<forall>i. k \<le> i \<and> i < length s \<longrightarrow>
          fix_filename s ! Suc (i - k) =
            (if is_forbidden (s ! i) \<or> (is_space_or_dot (s ! i) \<and> at_eol (drop (Suc i) s))
             then CHR ''_'' else s ! i))"
proof (cases "reserved_length s = 0")
  case True
  then have none: "reserved_match s = []" by (rule fix_filename_plain)
  have "length (fix_filename s) = length s \<and>
       (\<forall>i < length s.
          fix_filename s ! i =
            (if is_forbidden (s ! i) \<or> (i = 0 \<and> is_space (s ! i)) \<or>
                (is_space_or_dot (s ! i) \<and> at_eol (drop (Suc i) s))
             then CHR ''_'' else s ! i))"
  proof (cases s)
    case Nil
    then show ?thesis by (simp add: fix_filename_Nil)
  next
    case (Cons c cs)
    define h where "h = (if is_forbidden c \<or> is_space c \<or> (is_space_or_dot c \<and> at_eol cs)
      then CHR ''_'' else c)"
    from none Cons have fx: "fix_filename (c # cs) = h # tail_fix cs"
      by (simp add: fix_filename_Cons h_def)
    have "fix_filename s ! i =
        (if is_forbidden (s ! i) \<or> (i = 0 \<and> is_space (s ! i)) \<or>
            (is_space_or_dot (s ! i) \<and> at_eol (drop (Suc i) s))
         then CHR ''_'' else s ! i)" if "i < length s" for i
    proof (cases i)
      case 0
      then show ?thesis by (simp add: fx Cons h_def)
    next
      case (Suc k)
      with that Cons have "k < length cs" by simp
      from tail_fix_nth [OF this] Suc show ?thesis
        by (simp add: fx Cons)
    qed
    then show ?thesis
      by (simp add: fx Cons tail_fix_length)
  qed
  with True show ?thesis by (simp add: Let_def)
next
  case False
  define k where "k = reserved_length s"
  from False have pos: "0 < reserved_length s" by simp
  from fix_filename_reserved [OF pos]
  have le: "k \<le> length s" and fx: "fix_filename s = CHR ''_'' # tail_fix (drop k s)"
    by (simp_all add: k_def)
  have at: "fix_filename s ! Suc (i - k) =
      (if is_forbidden (s ! i) \<or> (is_space_or_dot (s ! i) \<and> at_eol (drop (Suc i) s))
       then CHR ''_'' else s ! i)" if "k \<le> i \<and> i < length s" for i
  proof -
    from that have "i - k < length (drop k s)" by auto
    from tail_fix_nth [OF this] that show ?thesis
      by (simp add: fx)
  qed
  have "k \<le> length s \<and> length (fix_filename s) = Suc (length s - k) \<and>
       fix_filename s ! 0 = CHR ''_'' \<and>
       (\<forall>i. k \<le> i \<and> i < length s \<longrightarrow>
          fix_filename s ! Suc (i - k) =
            (if is_forbidden (s ! i) \<or> (is_space_or_dot (s ! i) \<and> at_eol (drop (Suc i) s))
             then CHR ''_'' else s ! i))"
    using le at by (simp add: fx tail_fix_length)
  with False show ?thesis
    unfolding k_def by (simp add: Let_def)
qed

theorem fix_filename_positions_witness:
  "reserved_length ''  COM1  '' = 0 \<and> length (fix_filename ''  COM1  '') = 8 \<and>
   fix_filename ''  COM1  '' ! 0 = CHR ''_'' \<and> fix_filename ''  COM1  '' ! 1 = CHR '' '' \<and>
   reserved_length ''AUX.  '' = 3 \<and> length (fix_filename ''AUX.  '') = 4 \<and>
   fix_filename ''AUX.  '' ! 0 = CHR ''_'' \<and> fix_filename ''AUX.  '' ! 1 = CHR ''.'' \<and>
   fix_filename ''AUX.  '' ! 2 = CHR '' '' \<and> fix_filename ''AUX.  '' ! 3 = CHR ''_''"
proof -
  have k1: "reserved_length ''  COM1  '' = 0"
    by code_simp
  have k2: "reserved_length ''AUX.  '' = 3"
    by code_simp
  have cls: "\<not> is_forbidden CHR '' ''" "\<not> is_forbidden CHR ''.''" "is_space CHR '' ''"
    "is_space_or_dot CHR '' ''" "is_space_or_dot CHR ''.''" "\<not> at_eol ''COM1  ''"
    "\<not> at_eol ''  ''" "\<not> at_eol '' ''" "at_eol []"
    by code_simp+
  from fix_filename_positions [of "''  COM1  ''"] k1
  have a: "length (fix_filename ''  COM1  '') = length ''  COM1  '' \<and>
       (\<forall>i < length ''  COM1  ''.
          fix_filename ''  COM1  '' ! i =
            (if is_forbidden (''  COM1  '' ! i) \<or> (i = 0 \<and> is_space (''  COM1  '' ! i)) \<or>
                (is_space_or_dot (''  COM1  '' ! i) \<and> at_eol (drop (Suc i) ''  COM1  ''))
             then CHR ''_'' else ''  COM1  '' ! i))"
    by (simp add: Let_def)
  from fix_filename_positions [of "''AUX.  ''"] k2
  have b: "3 \<le> length ''AUX.  '' \<and> length (fix_filename ''AUX.  '') = Suc (length ''AUX.  '' - 3) \<and>
       fix_filename ''AUX.  '' ! 0 = CHR ''_'' \<and>
       (\<forall>i. 3 \<le> i \<and> i < length ''AUX.  '' \<longrightarrow>
          fix_filename ''AUX.  '' ! Suc (i - 3) =
            (if is_forbidden (''AUX.  '' ! i) \<or>
                (is_space_or_dot (''AUX.  '' ! i) \<and> at_eol (drop (Suc i) ''AUX.  ''))
             then CHR ''_'' else ''AUX.  '' ! i))"
    by (simp add: Let_def)
  from a have a0: "length (fix_filename ''  COM1  '') = 8" by simp
  from a [THEN conjunct2, rule_format, of 0] cls
  have a1: "fix_filename ''  COM1  '' ! 0 = CHR ''_''" by simp
  from a [THEN conjunct2, rule_format, of 1] cls
  have a2: "fix_filename ''  COM1  '' ! 1 = CHR '' ''" by simp
  from b have b0: "length (fix_filename ''AUX.  '') = 4" "fix_filename ''AUX.  '' ! 0 = CHR ''_''"
    by simp_all
  from b [THEN conjunct2, THEN conjunct2, THEN conjunct2, rule_format, of 3] cls
  have b1: "fix_filename ''AUX.  '' ! 1 = CHR ''.''" by simp
  from b [THEN conjunct2, THEN conjunct2, THEN conjunct2, rule_format, of 4] cls
  have b2: "fix_filename ''AUX.  '' ! 2 = CHR '' ''" by (simp add: numeral_2_eq_2)
  from b [THEN conjunct2, THEN conjunct2, THEN conjunct2, rule_format, of 5] cls
  have b3: "fix_filename ''AUX.  '' ! 3 = CHR ''_''" by (simp add: numeral_3_eq_3)
  from k1 k2 a0 a1 a2 b0 b1 b2 b3 show ?thesis by (simp only: simp_thms)
qed

theorem leading_run_counterexample:
  "fix_filename ''  COM1  '' = ''_ COM1 _'' \<and> fix_filename ''  COM1  '' \<noteq> ''_COM1_''"
  by code_simp

theorem fix_filename_idempotent_witness:
  "fix_filename ''COM1.txt'' = ''_.txt'' \<and> fix_filename (fix_filename ''COM1.txt'') = ''_.txt''"
proof -
  have "fix_filename ''COM1.txt'' = ''_.txt''"
    by code_simp
  then show ?thesis
    using fix_filename_idempotent [of "''COM1.txt''"] by simp
qed

end
